theory Spec2Isabelle
  imports Main "HOL-Library.Word"
begin

unbundle bit_operations_syntax

section \<open>BitFieldEmitter: the data model\<close>

text \<open>
  The class \<^verbatim>\<open>BitFieldEmitter<T>\<close> of
  \<^verbatim>\<open>packages/bits/src/classes/BitFieldEmitter.ts\<close> keeps an array
  \<^verbatim>\<open>handlers\<close> of JavaScript \<^verbatim>\<open>Set\<close>s, one per bit position, and a
  public field \<^verbatim>\<open>maxBits\<close>.

  Functions are compared by identity. A function handed to the emitter by its caller
  is a \<open>callback\<close>: a number standing for its identity, and what it does when it
  is called, which is either to return or to throw. Callbacks that call back into the
  emitter are outside this model. The closure \<^verbatim>\<open>onceHandler\<close> that
  \<^verbatim>\<open>once\<close> allocates is the only function here that changes the emitter while
  \<^verbatim>\<open>emit\<close> runs; it is a constructor of its own, carrying the number of its
  allocation (its identity) and the two variables it captures.
\<close>

datatype callback = Returns nat | Throws nat

datatype handler =
    Fn callback
  | OnceHandler nat callback int
    \<comment> \<open>allocation number, captured \<^verbatim>\<open>handler\<close>, captured \<^verbatim>\<open>maxBitsHint\<close>\<close>

datatype error =
    RangeError    \<comment> \<open>\<^verbatim>\<open>Array(maxBits)\<close> with an invalid length\<close>
  | TypeError     \<comment> \<open>a method called on \<^verbatim>\<open>undefined\<close>: \<^verbatim>\<open>this.handlers[i]\<close> past the end\<close>
  | Thrown nat    \<comment> \<open>the exception a throwing callback raises, tagged with the callback\<close>

text \<open>
  The calls the program makes are recorded in a trace, one event per call site:
  \<open>EmitCall\<close> is \<^verbatim>\<open>handler(data, code)\<close> in \<^verbatim>\<open>emit\<close>, and
  \<open>OnceCall k\<close> is \<^verbatim>\<open>handler(...args)\<close> in the closure with allocation
  number \<open>k\<close>. The trace and the allocation counter are the only parts of the
  state that are not fields of the class.
\<close>

datatype 'd event =
    EmitCall handler 'd int
  | OnceCall nat callback 'd int

record 'd emitter =
  maxBits :: int
  handlers :: "handler list list"
  closures :: nat
  trace :: "'d event list"

text \<open>
  A method either returns or throws; in both cases the emitter is left in some state,
  so the error case carries the state too.
\<close>

type_synonym 'd outcome = "(error \<times> 'd emitter) + 'd emitter"

fun state_of :: "'d outcome \<Rightarrow> 'd emitter" where
  "state_of (Inl (e, s)) = s"
| "state_of (Inr s) = s"

fun raised :: "'d outcome \<Rightarrow> error option" where
  "raised (Inl (e, s)) = Some e"
| "raised (Inr s) = None"

subsection \<open>JavaScript numbers, bit tests and sets\<close>

text \<open>
  Codes, hints and \<^verbatim>\<open>maxBits\<close> are numbers with integer values, of either sign
  and of any size; other numbers are outside this model. The operators \<^verbatim>\<open>&\<close> and
  \<^verbatim>\<open><<\<close> first convert their operands to 32-bit integers (the value modulo
  \<open>2 ^ 32\<close>), and \<^verbatim>\<open><<\<close> uses only the low five bits of the shift count, so
  \<^verbatim>\<open>1 << 32\<close> is 1.
\<close>

definition toInt32 :: "int \<Rightarrow> 32 word" where
  "toInt32 n = word_of_int n"

definition js_and :: "int \<Rightarrow> int \<Rightarrow> 32 word" where
  "js_and a b = toInt32 a AND toInt32 b"

definition js_shl1 :: "nat \<Rightarrow> 32 word" where
  "js_shl1 i = push_bit (i mod 32) 1"

text \<open>The condition \<^verbatim>\<open>code & (1 << i)\<close>: true when the result is not zero.\<close>

definition code_has :: "int \<Rightarrow> nat \<Rightarrow> bool" where
  "code_has code i = (toInt32 code AND js_shl1 i \<noteq> 0)"

text \<open>
  A \<^verbatim>\<open>Set\<close> iterates in insertion order: it is a list without repetitions,
  \<^verbatim>\<open>add\<close> appends an element that is not yet there, \<^verbatim>\<open>delete\<close> takes it out.
\<close>

definition set_add :: "'a \<Rightarrow> 'a list \<Rightarrow> 'a list" where
  "set_add x xs = (if x \<in> set xs then xs else xs @ [x])"

definition set_delete :: "'a \<Rightarrow> 'a list \<Rightarrow> 'a list" where
  "set_delete x xs = removeAll x xs"

text \<open>
  A parameter \<^verbatim>\<open>maxBitsHint = this.maxBits\<close>: \<open>None\<close> is the omitted
  argument. The loops \<^verbatim>\<open>for (let i = 0; i < maxBitsHint; i++)\<close> run over the
  indices below the hint, none when it is zero or negative.
\<close>

definition hint_or_default :: "int option \<Rightarrow> 'd emitter \<Rightarrow> int" where
  "hint_or_default hint s = (case hint of None \<Rightarrow> maxBits s | Some n \<Rightarrow> n)"

definition bits_below :: "int \<Rightarrow> nat list" where
  "bits_below n = [0..<nat n]"

section \<open>The methods\<close>

subsection \<open>constructor\<close>

text \<open>
  \<^verbatim>\<open>Array(maxBits)\<close> throws a RangeError unless the length is an integer in
  \<open>[0, 2 ^ 32)\<close>; every slot is then filled with a new empty set.
\<close>

definition new :: "int \<Rightarrow> error + 'd emitter" where
  "new mb =
     (if 0 \<le> mb \<and> mb < 2 ^ 32
      then Inr \<lparr>maxBits = mb, handlers = replicate (nat mb) [], closures = 0, trace = []\<rparr>
      else Inl RangeError)"

subsection \<open>on\<close>

fun on_loop :: "int \<Rightarrow> handler \<Rightarrow> nat list \<Rightarrow> 'd emitter \<Rightarrow> 'd outcome" where
  "on_loop code h [] s = Inr s"
| "on_loop code h (i # rest) s =
     (if code_has code i then
        (if i < length (handlers s)
         then on_loop code h rest (s\<lparr>handlers := (handlers s)[i := set_add h (handlers s ! i)]\<rparr>)
         else Inl (TypeError, s))
      else on_loop code h rest s)"

definition on :: "int \<Rightarrow> handler \<Rightarrow> int option \<Rightarrow> 'd emitter \<Rightarrow> 'd outcome" where
  "on code h hint s = on_loop code h (bits_below (hint_or_default hint s)) s"

subsection \<open>remove\<close>

fun remove_loop :: "handler \<Rightarrow> nat list \<Rightarrow> 'd emitter \<Rightarrow> 'd outcome" where
  "remove_loop h [] s = Inr s"
| "remove_loop h (b # rest) s =
     (if b < length (handlers s)
      then remove_loop h rest (s\<lparr>handlers := (handlers s)[b := set_delete h (handlers s ! b)]\<rparr>)
      else Inl (TypeError, s))"

definition remove :: "handler \<Rightarrow> int option \<Rightarrow> 'd emitter \<Rightarrow> 'd outcome" where
  "remove h hint s = remove_loop h (bits_below (hint_or_default hint s)) s"

subsection \<open>removeGroup\<close>

text \<open>
  The iterable is a collection that can be iterated once per bit, an array or a
  \<^verbatim>\<open>Set\<close> as in the method's example: a list, which may repeat a handler. The slot
  \<^verbatim>\<open>this.handlers[bit]\<close> is read once per handler, inside the inner loop, so an
  empty iterable never reads it.
\<close>

fun removeGroup_inner :: "nat \<Rightarrow> handler list \<Rightarrow> 'd emitter \<Rightarrow> 'd outcome" where
  "removeGroup_inner b [] s = Inr s"
| "removeGroup_inner b (h # rest) s =
     (if b < length (handlers s)
      then removeGroup_inner b rest
             (s\<lparr>handlers := (handlers s)[b := set_delete h (handlers s ! b)]\<rparr>)
      else Inl (TypeError, s))"

fun removeGroup_loop :: "handler list \<Rightarrow> nat list \<Rightarrow> 'd emitter \<Rightarrow> 'd outcome" where
  "removeGroup_loop hs [] s = Inr s"
| "removeGroup_loop hs (b # rest) s =
     (case removeGroup_inner b hs s of
        Inl e \<Rightarrow> Inl e
      | Inr s' \<Rightarrow> removeGroup_loop hs rest s')"

definition removeGroup :: "handler list \<Rightarrow> int option \<Rightarrow> 'd emitter \<Rightarrow> 'd outcome" where
  "removeGroup hs hint s = removeGroup_loop hs (bits_below (hint_or_default hint s)) s"

subsection \<open>once\<close>

text \<open>
  \<^verbatim>\<open>once\<close> allocates the closure, so it takes the next allocation number, and
  registers it with \<^verbatim>\<open>on\<close>. The default of \<^verbatim>\<open>maxBitsHint\<close> is evaluated when
  \<^verbatim>\<open>once\<close> is called, and the closure captures the resulting number.
\<close>

definition once :: "int \<Rightarrow> callback \<Rightarrow> int option \<Rightarrow> 'd emitter \<Rightarrow> 'd outcome" where
  "once code cb hint s =
     (let n = hint_or_default hint s;
          onceHandler = OnceHandler (closures s) cb n
      in on code onceHandler (Some n) (s\<lparr>closures := Suc (closures s)\<rparr>))"

subsection \<open>Calling a handler\<close>

text \<open>A callback returns or throws; it does not touch the emitter.\<close>

fun call_callback :: "callback \<Rightarrow> 'd emitter \<Rightarrow> 'd outcome" where
  "call_callback (Returns n) s = Inr s"
| "call_callback (Throws n) s = Inl (Thrown n, s)"

text \<open>
  The body of \<^verbatim>\<open>onceHandler\<close>: it calls the captured handler with its own
  arguments and then removes itself; when the captured handler throws, the removal is
  not reached.
\<close>

fun invoke :: "handler \<Rightarrow> 'd \<Rightarrow> int \<Rightarrow> 'd emitter \<Rightarrow> 'd outcome" where
  "invoke (Fn cb) d c s = call_callback cb s"
| "invoke (OnceHandler k cb n) d c s =
     (case call_callback cb (s\<lparr>trace := trace s @ [OnceCall k cb d c]\<rparr>) of
        Inl e \<Rightarrow> Inl e
      | Inr s' \<Rightarrow> remove (OnceHandler k cb n) (Some n) s')"

subsection \<open>emit\<close>

text \<open>
  The inner loop iterates the set \<^verbatim>\<open>this.handlers[bit]\<close> while handlers run. A
  JavaScript set iterator is live: an element deleted before the iterator reaches it is
  not visited. (No function of this model adds to a set during \<^verbatim>\<open>emit\<close>.) The
  loop therefore runs over the elements the set had when the iteration started and
  passes over those that are no longer in it. \<open>called\<close> is the local set of the
  same name.
\<close>

fun emit_handlers ::
  "int \<Rightarrow> 'd \<Rightarrow> nat \<Rightarrow> handler list \<Rightarrow> handler list \<Rightarrow> 'd emitter
     \<Rightarrow> (error \<times> 'd emitter) + (handler list \<times> 'd emitter)" where
  "emit_handlers code d b [] called s = Inr (called, s)"
| "emit_handlers code d b (h # rest) called s =
     (if h \<notin> set (handlers s ! b) then emit_handlers code d b rest called s
      else if h \<in> set called then emit_handlers code d b rest called s
      else
        (case invoke h d code (s\<lparr>trace := trace s @ [EmitCall h d code]\<rparr>) of
           Inl e \<Rightarrow> Inl e
         | Inr s' \<Rightarrow> emit_handlers code d b rest (set_add h called) s'))"

fun emit_loop ::
  "int \<Rightarrow> 'd \<Rightarrow> nat list \<Rightarrow> handler list \<Rightarrow> 'd emitter
     \<Rightarrow> (error \<times> 'd emitter) + (handler list \<times> 'd emitter)" where
  "emit_loop code d [] called s = Inr (called, s)"
| "emit_loop code d (b # rest) called s =
     (if code_has code b then
        (if b < length (handlers s) then
           (case emit_handlers code d b (handlers s ! b) called s of
              Inl e \<Rightarrow> Inl e
            | Inr (called', s') \<Rightarrow> emit_loop code d rest called' s')
         else Inl (TypeError, s))
      else emit_loop code d rest called s)"

text \<open>\<open>called\<close> starts empty in every call and is dropped when the call returns.\<close>

definition emit :: "int \<Rightarrow> 'd \<Rightarrow> int option \<Rightarrow> 'd emitter \<Rightarrow> 'd outcome" where
  "emit code d hint s =
     (case emit_loop code d (bits_below (hint_or_default hint s)) [] s of
        Inl e \<Rightarrow> Inl e
      | Inr (called, s') \<Rightarrow> Inr s')"

section \<open>Definitions used to state the properties\<close>

subsection \<open>The table\<close>

text \<open>
  The constructor allocates one slot per bit and no method resizes the table, but the
  field \<^verbatim>\<open>maxBits\<close> is public and the type of the state does not tie it to the
  table. \<open>well_formed\<close> says that it still is the number of slots.
\<close>

definition well_formed :: "'d emitter \<Rightarrow> bool" where
  "well_formed s \<longleftrightarrow> length (handlers s) = nat (maxBits s)"

text \<open>A handler is \<open>unregistered\<close> when no slot holds it.\<close>

definition unregistered :: "handler \<Rightarrow> handler list list \<Rightarrow> bool" where
  "unregistered h tbl = list_all (\<lambda>slot. h \<notin> set slot) tbl"

subsection \<open>Reading the trace\<close>

text \<open>
  \<open>events_of s r\<close> are the events a call added, where \<open>s\<close> is the state it
  started in and \<open>r\<close> its outcome. \<open>emit_calls\<close> keeps the calls made by
  \<^verbatim>\<open>emit\<close>, as triples of handler, data and code; \<open>invoked_by h\<close> keeps the
  arguments of those made to \<open>h\<close>.
\<close>

definition events_of :: "'d emitter \<Rightarrow> 'd outcome \<Rightarrow> 'd event list" where
  "events_of s r = drop (length (trace s)) (trace (state_of r))"

fun emit_calls :: "'d event list \<Rightarrow> (handler \<times> 'd \<times> int) list" where
  "emit_calls [] = []"
| "emit_calls (EmitCall h d c # rest) = (h, d, c) # emit_calls rest"
| "emit_calls (OnceCall k cb d c # rest) = emit_calls rest"

definition invoked_by :: "handler \<Rightarrow> 'd event list \<Rightarrow> ('d \<times> int) list" where
  "invoked_by h evs = map snd (filter (\<lambda>x. fst x = h) (emit_calls evs))"

text \<open>
  The events of one closure of \<^verbatim>\<open>once\<close>, by its allocation number: the calls
  \<^verbatim>\<open>emit\<close> makes to it and the calls it makes to the handler it wraps.
\<close>

fun closure_number :: "handler \<Rightarrow> nat option" where
  "closure_number (Fn cb) = None"
| "closure_number (OnceHandler k cb n) = Some k"



subsection \<open>Handlers that return\<close>

text \<open>
  \<open>returns L h\<close>: called in a table of \<open>L\<close> slots, \<open>h\<close> returns. A
  caller's function returns or throws as its constructor says. The closure of
  \<^verbatim>\<open>once\<close> returns when the function it wraps does and its own
  \<^verbatim>\<open>this.remove(onceHandler, maxBitsHint)\<close> stays within the table.
  \<open>failure h\<close> is what a handler that does not return throws.
\<close>

fun returns :: "nat \<Rightarrow> handler \<Rightarrow> bool" where
  "returns L (Fn (Returns m)) = True"
| "returns L (Fn (Throws m)) = False"
| "returns L (OnceHandler k (Returns m) n) = (n \<le> int L)"
| "returns L (OnceHandler k (Throws m) n) = False"

fun failure :: "handler \<Rightarrow> error" where
  "failure (Fn (Throws m)) = Thrown m"
| "failure (OnceHandler k (Throws m) n) = Thrown m"
| "failure (Fn (Returns m)) = TypeError"
| "failure (OnceHandler k (Returns m) n) = TypeError"

fun callback_of :: "handler \<Rightarrow> callback" where
  "callback_of (Fn cb) = cb"
| "callback_of (OnceHandler k cb n) = cb"

definition others_return :: "handler \<Rightarrow> handler list list \<Rightarrow> bool" where
  "others_return h tbl = list_all (list_all (\<lambda>g. g = h \<or> returns (length tbl) g)) tbl"


subsection \<open>The order of dispatch\<close>

text \<open>
  The order in which \<^verbatim>\<open>emit\<close> is to call handlers, stated without the loops:
  \<open>pending\<close> chains the slots of the bits that are set in the code, in the order of
  the bit positions given; \<open>visit C\<close> walks a list and leaves out what is in
  \<open>C\<close> or was met before. \<open>scanned\<close> are the bit positions the loop gets
  through: all those below the hint, unless the code has a bit set at a position past the
  table, where \<^verbatim>\<open>emit\<close> throws. \<open>upto_failure\<close> cuts a list after the first
  handler that does not return.
\<close>

fun visit :: "handler set \<Rightarrow> handler list \<Rightarrow> handler list" where
  "visit C [] = []"
| "visit C (h # rest) = (if h \<in> C then visit C rest else h # visit (insert h C) rest)"

definition pending :: "int \<Rightarrow> nat list \<Rightarrow> handler list list \<Rightarrow> handler list" where
  "pending code bits tbl = concat (map (\<lambda>b. tbl ! b) (filter (code_has code) bits))"

definition dispatch_order :: "int \<Rightarrow> nat list \<Rightarrow> handler list list \<Rightarrow> handler list" where
  "dispatch_order code bits tbl = visit {} (pending code bits tbl)"

definition scanned :: "int \<Rightarrow> int \<Rightarrow> nat \<Rightarrow> nat list" where
  "scanned code n L = takeWhile (\<lambda>b. \<not> (code_has code b \<and> L \<le> b)) (bits_below n)"

fun upto_failure :: "nat \<Rightarrow> handler list \<Rightarrow> handler list" where
  "upto_failure L [] = []"
| "upto_failure L (h # rest) = (if returns L h then h # upto_failure L rest else [h])"

subsection \<open>The effect of one call\<close>

text \<open>
  What \<^verbatim>\<open>emit\<close> leaves when it calls one handler: the events of the call, and
  the table without the closure of \<^verbatim>\<open>once\<close> when that is what was called and the
  function it wraps returned. \<open>run\<close> calls the handlers of a list one after the
  other, as \<^verbatim>\<open>emit\<close> does, and stops at the first that throws.
\<close>

fun events_for :: "'d \<Rightarrow> int \<Rightarrow> handler \<Rightarrow> 'd event list" where
  "events_for d c (Fn cb) = [EmitCall (Fn cb) d c]"
| "events_for d c (OnceHandler k cb n) = [EmitCall (OnceHandler k cb n) d c, OnceCall k cb d c]"

definition delete_below :: "handler \<Rightarrow> int \<Rightarrow> handler list list \<Rightarrow> handler list list" where
  "delete_below h n tbl =
     map (\<lambda>i. if i < nat n then set_delete h (tbl ! i) else tbl ! i) [0..<length tbl]"

fun strip :: "handler \<Rightarrow> handler list list \<Rightarrow> handler list list" where
  "strip (OnceHandler k (Returns m) n) tbl = delete_below (OnceHandler k (Returns m) n) n tbl"
| "strip (OnceHandler k (Throws m) n) tbl = tbl"
| "strip (Fn cb) tbl = tbl"

definition step :: "'d \<Rightarrow> int \<Rightarrow> handler \<Rightarrow> 'd emitter \<Rightarrow> 'd emitter" where
  "step d c h s = s\<lparr>handlers := strip h (handlers s), trace := trace s @ events_for d c h\<rparr>"

fun run :: "'d \<Rightarrow> int \<Rightarrow> handler list \<Rightarrow> 'd emitter \<Rightarrow> 'd outcome" where
  "run d c [] s = Inr s"
| "run d c (h # rest) s =
     (case invoke h d c (s\<lparr>trace := trace s @ [EmitCall h d c]\<rparr>) of
        Inl e \<Rightarrow> Inl e
      | Inr s' \<Rightarrow> run d c rest s')"

text \<open>
  Two tables are the \<open>same_outside C\<close> when they differ only in where the handlers
  of \<open>C\<close> are.
\<close>

definition same_outside :: "handler set \<Rightarrow> handler list list \<Rightarrow> handler list list \<Rightarrow> bool" where
  "same_outside C T T' \<longleftrightarrow>
     length T = length T' \<and>
     (\<forall>i < length T. filter (\<lambda>x. x \<notin> C) (T ! i) = filter (\<lambda>x. x \<notin> C) (T' ! i))"

subsection \<open>Sequences of calls\<close>


text \<open>
  Any number of \<^verbatim>\<open>emit\<close> calls, each with its code, data and hint. A later call
  starts in the state the one before it left, whether that one returned or threw (a
  caller may catch the exception and go on).
\<close>

fun emits :: "(int \<times> 'd \<times> int option) list \<Rightarrow> 'd emitter \<Rightarrow> 'd emitter" where
  "emits [] s = s"
| "emits ((code, d, hint) # rest) s = emits rest (state_of (emit code d hint s))"


subsection \<open>The states the methods reach\<close>

text \<open>
  \<^verbatim>\<open>once\<close> numbers its closures in the order it allocates them, so in every state
  built by the methods the closures in the table bear numbers below the counter
  (\<open>numbered\<close>), and none bears the next one (\<open>no_closure\<close>). \<open>reachable\<close>
  are the states built from the constructor by the methods, the caller registering
  functions of its own with \<^verbatim>\<open>on\<close>.
\<close>

definition no_closure :: "nat \<Rightarrow> handler list list \<Rightarrow> bool" where
  "no_closure k tbl = list_all (list_all (\<lambda>g. closure_number g \<noteq> Some k)) tbl"

definition numbered :: "'d emitter \<Rightarrow> bool" where
  "numbered s \<longleftrightarrow>
     list_all (list_all (\<lambda>g. case closure_number g of None \<Rightarrow> True | Some k \<Rightarrow> k < closures s))
       (handlers s)"

inductive reachable :: "'d emitter \<Rightarrow> bool" where
  constructed: "new mb = Inr s \<Longrightarrow> reachable s"
| after_on: "reachable s \<Longrightarrow> reachable (state_of (on code (Fn cb) hint s))"
| after_remove: "reachable s \<Longrightarrow> reachable (state_of (remove h hint s))"
| after_removeGroup: "reachable s \<Longrightarrow> reachable (state_of (removeGroup hs hint s))"
| after_once: "reachable s \<Longrightarrow> reachable (state_of (once code cb hint s))"
| after_emit: "reachable s \<Longrightarrow> reachable (state_of (emit code d hint s))"


subsection \<open>Example emitters\<close>

text \<open>
  \<open>four_slots\<close> is \<^verbatim>\<open>new BitFieldEmitter(4)\<close> and \<open>default_emitter\<close> is
  \<^verbatim>\<open>new BitFieldEmitter()\<close>. \<open>two_slots\<close> is \<^verbatim>\<open>new BitFieldEmitter(2)\<close>
  after \<^verbatim>\<open>on(1, f1)\<close> and \<^verbatim>\<open>on(3, f2)\<close>. \<open>three_slots\<close> has four
  functions on three bits, \<open>throwing_slots\<close> a function that throws between two
  that return. The data passed to handlers are numbers.
\<close>

definition four_slots :: "nat emitter" where
  "four_slots = \<lparr>maxBits = 4, handlers = [[], [], [], []], closures = 0, trace = []\<rparr>"


definition two_slots :: "nat emitter" where
  "two_slots = \<lparr>maxBits = 2, handlers = [[Fn (Returns 1), Fn (Returns 2)], [Fn (Returns 2)]],
     closures = 0, trace = []\<rparr>"

definition three_slots :: "nat emitter" where
  "three_slots = \<lparr>maxBits = 3,
     handlers = [[Fn (Returns 1), Fn (Returns 2)], [Fn (Returns 2), Fn (Returns 3)], [Fn (Returns 4)]],
     closures = 0, trace = []\<rparr>"

definition throwing_slots :: "nat emitter" where
  "throwing_slots = \<lparr>maxBits = 2,
     handlers = [[Fn (Returns 1), Fn (Throws 2)], [Fn (Throws 2), Fn (Returns 3)]],
     closures = 0, trace = []\<rparr>"

section \<open>The registration loops\<close>

text \<open>
  \<^verbatim>\<open>on\<close>, \<^verbatim>\<open>remove\<close> and \<^verbatim>\<open>removeGroup\<close> within the table: each returns,
  and each slot of the result is given in terms of the slot before.
\<close>

lemma set_add_idem: "set_add x (set_add x xs) = set_add x xs"
  by (simp add: set_add_def)

lemma in_set_add: "y \<in> set (set_add x xs) \<longleftrightarrow> y = x \<or> y \<in> set xs"
  by (auto simp: set_add_def)

lemma on_loop_append:
  "on_loop code h (xs @ ys) s =
     (case on_loop code h xs s of Inl e \<Rightarrow> Inl e | Inr s' \<Rightarrow> on_loop code h ys s')"
  by (induction xs arbitrary: s) simp_all

lemma on_loop_sat:
  "(\<And>i. i \<in> set bs \<Longrightarrow> code_has code i \<Longrightarrow> i < length (handlers s) \<and> h \<in> set (handlers s ! i))
   \<Longrightarrow> on_loop code h bs s = Inr s"
  by (induction bs arbitrary: s) (simp_all add: set_add_def)

lemma on_loop_ok:
  "(\<And>i. i \<in> set bs \<Longrightarrow> code_has code i \<Longrightarrow> i < length (handlers s)) \<Longrightarrow>
   \<exists>s'. on_loop code h bs s = Inr s' \<and> length (handlers s') = length (handlers s)
      \<and> maxBits s' = maxBits s \<and> closures s' = closures s \<and> trace s' = trace s
      \<and> (\<forall>i < length (handlers s). handlers s' ! i =
            (if i \<in> set bs \<and> code_has code i then set_add h (handlers s ! i) else handlers s ! i))"
proof (induction bs arbitrary: s)
  case Nil
  then show ?case by simp
next
  case (Cons b bs)
  show ?case
  proof (cases "code_has code b")
    case False
    with Cons.IH [of s] Cons.prems show ?thesis by auto
  next
    case True
    with Cons.prems have b: "b < length (handlers s)" by simp
    let ?t = "s\<lparr>handlers := (handlers s)[b := set_add h (handlers s ! b)]\<rparr>"
    have "\<And>i. i \<in> set bs \<Longrightarrow> code_has code i \<Longrightarrow> i < length (handlers ?t)"
      using Cons.prems by simp
    from Cons.IH [OF this] obtain s' where s':
      "on_loop code h bs ?t = Inr s'" "length (handlers s') = length (handlers ?t)"
      "maxBits s' = maxBits ?t" "closures s' = closures ?t" "trace s' = trace ?t"
      "\<forall>i < length (handlers ?t). handlers s' ! i =
            (if i \<in> set bs \<and> code_has code i then set_add h (handlers ?t ! i) else handlers ?t ! i)"
      by blast
    have "\<forall>i < length (handlers s). handlers s' ! i =
            (if i \<in> set (b # bs) \<and> code_has code i then set_add h (handlers s ! i) else handlers s ! i)"
      using s'(6) True b by (auto simp: nth_list_update set_add_idem)
    with s' True b show ?thesis by simp
  qed
qed

lemma on_loop_idem:
  "on_loop code h bs (state_of (on_loop code h bs s)) = on_loop code h bs s"
proof (cases "\<forall>i\<in>set bs. code_has code i \<longrightarrow> i < length (handlers s)")
  case True
  then obtain s' where s': "on_loop code h bs s = Inr s'"
    "length (handlers s') = length (handlers s)"
    "\<forall>i < length (handlers s). handlers s' ! i =
       (if i \<in> set bs \<and> code_has code i then set_add h (handlers s ! i) else handlers s ! i)"
    using on_loop_ok [of bs code s h] by blast
  have "on_loop code h bs s' = Inr s'"
    by (rule on_loop_sat) (use True s' in \<open>auto simp: in_set_add\<close>)
  with s' show ?thesis by simp
next
  case False
  then have "\<exists>i\<in>set bs. code_has code i \<and> \<not> i < length (handlers s)" by blast
  from split_list_first_prop [OF this]
  obtain pre b post where split: "bs = pre @ b # post"
    and b: "code_has code b" "\<not> b < length (handlers s)"
    and pre: "\<forall>i\<in>set pre. \<not> (code_has code i \<and> \<not> i < length (handlers s))"
    by blast
  from pre obtain s' where s': "on_loop code h pre s = Inr s'"
    "length (handlers s') = length (handlers s)"
    "\<forall>i < length (handlers s). handlers s' ! i =
       (if i \<in> set pre \<and> code_has code i then set_add h (handlers s ! i) else handlers s ! i)"
    using on_loop_ok [of pre code s h] by blast
  have again: "on_loop code h pre s' = Inr s'"
    by (rule on_loop_sat) (use pre s' in \<open>auto simp: in_set_add\<close>)
  have "on_loop code h bs s = Inl (TypeError, s')"
    using s' b by (simp add: split on_loop_append)
  moreover have "on_loop code h bs s' = Inl (TypeError, s')"
    using s' b again by (simp add: split on_loop_append)
  ultimately show ?thesis by simp
qed

lemma emitter_eqI:
  "maxBits s = maxBits t \<Longrightarrow> closures s = closures t \<Longrightarrow> trace s = trace t \<Longrightarrow>
   length (handlers s) = length (handlers t) \<Longrightarrow>
   (\<And>i. i < length (handlers s) \<Longrightarrow> handlers s ! i = handlers t ! i) \<Longrightarrow> s = (t :: 'd emitter)"
  by (simp add: nth_equalityI)

lemma remove_loop_ok:
  "(\<And>i. i \<in> set bs \<Longrightarrow> i < length (handlers s)) \<Longrightarrow>
   \<exists>s'. remove_loop h bs s = Inr s' \<and> length (handlers s') = length (handlers s)
      \<and> maxBits s' = maxBits s \<and> closures s' = closures s \<and> trace s' = trace s
      \<and> (\<forall>i < length (handlers s). handlers s' ! i =
            (if i \<in> set bs then set_delete h (handlers s ! i) else handlers s ! i))"
proof (induction bs arbitrary: s)
  case Nil
  then show ?case by simp
next
  case (Cons b bs)
  from Cons.prems have b: "b < length (handlers s)" by simp
  let ?t = "s\<lparr>handlers := (handlers s)[b := set_delete h (handlers s ! b)]\<rparr>"
  have "\<And>i. i \<in> set bs \<Longrightarrow> i < length (handlers ?t)"
    using Cons.prems by simp
  from Cons.IH [OF this] obtain s' where s':
    "remove_loop h bs ?t = Inr s'" "length (handlers s') = length (handlers ?t)"
    "maxBits s' = maxBits ?t" "closures s' = closures ?t" "trace s' = trace ?t"
    "\<forall>i < length (handlers ?t). handlers s' ! i =
          (if i \<in> set bs then set_delete h (handlers ?t ! i) else handlers ?t ! i)"
    by blast
  have "\<forall>i < length (handlers s). handlers s' ! i =
          (if i \<in> set (b # bs) then set_delete h (handlers s ! i) else handlers s ! i)"
    using s'(6) b by (auto simp: nth_list_update set_delete_def)
  with s' b show ?case by simp
qed





section \<open>emit calls the handlers in dispatch order\<close>

text \<open>
  The two loops of \<^verbatim>\<open>emit\<close> against \<open>run\<close> over \<open>visit\<close>. The table
  changes while \<^verbatim>\<open>emit\<close> runs, but only where handlers already called are, and
  those are passed over anyway.
\<close>

lemma same_outside_refl: "same_outside C T T"
  by (simp add: same_outside_def)

lemma filter_mono_eq:
  assumes "filter (\<lambda>x. x \<notin> C) xs = filter (\<lambda>x. x \<notin> C) ys" "C \<subseteq> D"
  shows "filter (\<lambda>x. x \<notin> D) xs = filter (\<lambda>x. x \<notin> D) ys"
proof -
  have "filter (\<lambda>x. x \<notin> D) zs = filter (\<lambda>x. x \<notin> D) (filter (\<lambda>x. x \<notin> C) zs)" for zs
    using assms(2) by (induction zs) auto
  from this [of xs] this [of ys] assms(1) show ?thesis by simp
qed

lemma same_outside_mono: "same_outside C T T' \<Longrightarrow> C \<subseteq> D \<Longrightarrow> same_outside D T T'"
  unfolding same_outside_def using filter_mono_eq by blast

lemma same_outside_trans:
  "same_outside C T T' \<Longrightarrow> same_outside C T' T'' \<Longrightarrow> same_outside C T T''"
  by (simp add: same_outside_def)

lemma same_outside_mem:
  "same_outside C T T' \<Longrightarrow> i < length T \<Longrightarrow> h \<notin> C \<Longrightarrow> h \<in> set (T ! i) \<longleftrightarrow> h \<in> set (T' ! i)"
proof -
  assume a: "same_outside C T T'" "i < length T" "h \<notin> C"
  then have "set (filter (\<lambda>x. x \<notin> C) (T ! i)) = set (filter (\<lambda>x. x \<notin> C) (T' ! i))"
    by (simp add: same_outside_def)
  with a(3) show ?thesis by auto
qed

lemma visit_filter_gen: "D \<subseteq> C \<Longrightarrow> visit C (filter (\<lambda>x. x \<notin> D) xs) = visit C xs"
proof (induction xs arbitrary: C)
  case Nil
  then show ?case by simp
next
  case (Cons x xs)
  from Cons.prems have "D \<subseteq> insert x C" by auto
  with Cons.IH [of C] Cons.IH [of "insert x C"] Cons.prems show ?case by auto
qed

lemma visit_filter: "visit C (filter (\<lambda>x. x \<notin> C) xs) = visit C xs"
  by (simp add: visit_filter_gen)

lemma visit_append: "visit C (xs @ ys) = visit C xs @ visit (C \<union> set xs) ys"
proof (induction xs arbitrary: C)
  case Nil
  then show ?case by simp
next
  case (Cons x xs)
  show ?case
  proof (cases "x \<in> C")
    case True
    then have "C \<union> set (x # xs) = C \<union> set xs" by auto
    with True Cons.IH [of C] show ?thesis by simp
  next
    case False
    have "C \<union> set (x # xs) = insert x C \<union> set xs" by auto
    with False Cons.IH [of "insert x C"] show ?thesis by simp
  qed
qed

lemma set_visit: "set (visit C xs) = set xs - C"
  by (induction xs arbitrary: C) auto

lemma distinct_visit: "distinct (visit C xs)"
  by (induction xs arbitrary: C) (auto simp: set_visit)

lemma run_append:
  "run d c (xs @ ys) s = (case run d c xs s of Inl e \<Rightarrow> Inl e | Inr s' \<Rightarrow> run d c ys s')"
  by (induction xs arbitrary: s) (simp_all split: sum.splits)

text \<open>What a removal loop leaves, whether it throws or not.\<close>

lemma remove_loop_frame:
  "length (handlers (state_of (remove_loop h bs s))) = length (handlers s) \<and>
   maxBits (state_of (remove_loop h bs s)) = maxBits s \<and>
   closures (state_of (remove_loop h bs s)) = closures s \<and>
   trace (state_of (remove_loop h bs s)) = trace s \<and>
   same_outside {h} (handlers s) (handlers (state_of (remove_loop h bs s)))"
proof (induction bs arbitrary: s)
  case Nil
  then show ?case by (simp add: same_outside_refl)
next
  case (Cons b bs)
  show ?case
  proof (cases "b < length (handlers s)")
    case False
    then show ?thesis by (simp add: same_outside_refl)
  next
    case True
    let ?t = "s\<lparr>handlers := (handlers s)[b := set_delete h (handlers s ! b)]\<rparr>"
    have "filter (\<lambda>x. x \<notin> {h}) (handlers s ! i) =
          filter (\<lambda>x. x \<notin> {h}) ((handlers s)[b := set_delete h (handlers s ! b)] ! i)"
      if "i < length (handlers s)" for i
      using that by (cases "i = b") (simp_all add: set_delete_def removeAll_filter_not_eq eq_commute)
    then have "same_outside {h} (handlers s) (handlers ?t)"
      by (simp add: same_outside_def)
    with Cons.IH [of ?t] True show ?thesis
      by (auto intro: same_outside_trans)
  qed
qed

lemma call_callback_frame:
  "state_of (call_callback cb s) = s"
  by (cases cb) simp_all

lemma invoke_frame:
  "length (handlers (state_of (invoke h d c s))) = length (handlers s) \<and>
   maxBits (state_of (invoke h d c s)) = maxBits s \<and>
   closures (state_of (invoke h d c s)) = closures s \<and>
   same_outside {h} (handlers s) (handlers (state_of (invoke h d c s)))"
proof (cases h)
  case (Fn cb)
  then show ?thesis by (simp add: call_callback_frame same_outside_refl)
next
  case (OnceHandler k cb n)
  show ?thesis
  proof (cases cb)
    case (Returns m)
    with OnceHandler remove_loop_frame [of h "bits_below n" "s\<lparr>trace := trace s @ [OnceCall k cb d c]\<rparr>"]
    show ?thesis by (simp add: remove_def hint_or_default_def)
  next
    case (Throws m)
    with OnceHandler show ?thesis by (simp add: same_outside_refl)
  qed
qed

lemma same_outside_Un:
  assumes "same_outside C T T'" "i < length T"
  shows "C \<union> set (T ! i) = C \<union> set (T' ! i)"
  using same_outside_mem [OF assms] by blast

lemma same_outside_visit:
  assumes "same_outside C T T'" "i < length T"
  shows "visit C (T ! i) = visit C (T' ! i)"
proof -
  have "visit C (T ! i) = visit C (filter (\<lambda>x. x \<notin> C) (T ! i))"
    by (simp add: visit_filter)
  also have "\<dots> = visit C (filter (\<lambda>x. x \<notin> C) (T' ! i))"
    using assms by (simp add: same_outside_def)
  finally show ?thesis by (simp add: visit_filter)
qed

lemma emit_handlers_run:
  assumes "same_outside (set called) T (handlers s)" "set hs \<subseteq> set (T ! b)" "b < length T"
  shows "map_sum id snd (emit_handlers code d b hs called s) = run d code (visit (set called) hs) s \<and>
         (\<forall>called' s'. emit_handlers code d b hs called s = Inr (called', s') \<longrightarrow>
              set called' = set called \<union> set hs \<and> same_outside (set called') T (handlers s'))"
  using assms
proof (induction hs arbitrary: called s)
  case Nil
  then show ?case by simp
next
  case (Cons h hs)
  from Cons.prems have sub: "set hs \<subseteq> set (T ! b)" and hT: "h \<in> set (T ! b)" by auto
  show ?case
  proof (cases "h \<in> set called")
    case True
    then have "set called \<union> set (h # hs) = set called \<union> set hs" by auto
    with True Cons.IH [OF Cons.prems(1) sub Cons.prems(3)] show ?thesis by auto
  next
    case False
    with same_outside_mem [OF Cons.prems(1) Cons.prems(3) False] hT
    have live: "h \<in> set (handlers s ! b)" by simp
    let ?s1 = "s\<lparr>trace := trace s @ [EmitCall h d code]\<rparr>"
    show ?thesis
    proof (cases "invoke h d code ?s1")
      case (Inl e)
      with False live show ?thesis by simp
    next
      case (Inr s')
      from invoke_frame [of h d code ?s1] Inr
      have "same_outside {h} (handlers s) (handlers s')" by simp
      then have "same_outside (insert h (set called)) (handlers s) (handlers s')"
        by (rule same_outside_mono) simp
      moreover have "same_outside (insert h (set called)) T (handlers s)"
        using Cons.prems(1) by (rule same_outside_mono) auto
      ultimately have inv: "same_outside (set (set_add h called)) T (handlers s')"
        using False by (simp add: set_add_def same_outside_trans)
      have eq1: "set (set_add h called) \<union> set hs = set called \<union> set (h # hs)"
        using False by (auto simp: set_add_def)
      have eq2: "set (set_add h called) = insert h (set called)"
        using False by (auto simp: set_add_def)
      from Cons.IH [OF inv sub Cons.prems(3)] Inr False live show ?thesis
        by (auto simp: eq1 eq2)
    qed
  qed
qed

lemma emit_loop_run:
  assumes "same_outside (set called) T (handlers s)"
    "\<forall>b\<in>set bits. code_has code b \<longrightarrow> b < length T"
  shows "map_sum id snd (emit_loop code d bits called s) =
           run d code (visit (set called) (pending code bits T)) s"
  using assms
proof (induction bits arbitrary: called s)
  case Nil
  then show ?case by (simp add: pending_def)
next
  case (Cons b bits)
  from Cons.prems(2) have rest: "\<forall>b\<in>set bits. code_has code b \<longrightarrow> b < length T" by simp
  show ?case
  proof (cases "code_has code b")
    case False
    with Cons.IH [OF Cons.prems(1) rest] show ?thesis by (simp add: pending_def)
  next
    case True
    with Cons.prems(2) have bT: "b < length T" by simp
    with Cons.prems(1) have bs: "b < length (handlers s)" by (simp add: same_outside_def)
    have pend: "pending code (b # bits) T = T ! b @ pending code bits T"
      using True by (simp add: pending_def)
    have vis: "visit (set called) (pending code (b # bits) T) =
        visit (set called) (handlers s ! b) @
        visit (set called \<union> set (handlers s ! b)) (pending code bits T)"
      using same_outside_visit [OF Cons.prems(1) bT] same_outside_Un [OF Cons.prems(1) bT]
      by (simp add: pend visit_append)
    have inner: "map_sum id snd (emit_handlers code d b (handlers s ! b) called s) =
           run d code (visit (set called) (handlers s ! b)) s \<and>
         (\<forall>called' s'. emit_handlers code d b (handlers s ! b) called s = Inr (called', s') \<longrightarrow>
              set called' = set called \<union> set (handlers s ! b) \<and>
              same_outside (set called') (handlers s) (handlers s'))"
      by (rule emit_handlers_run) (simp_all add: same_outside_refl bs)
    show ?thesis
    proof (cases "emit_handlers code d b (handlers s ! b) called s")
      case (Inl e)
      with inner have "run d code (visit (set called) (handlers s ! b)) s = Inl e" by simp
      with Inl True bs show ?thesis by (simp add: vis run_append)
    next
      case (Inr p)
      obtain called' s' where p: "p = (called', s')" by (cases p)
      from inner Inr p have r: "run d code (visit (set called) (handlers s ! b)) s = Inr s'"
        and c: "set called' = set called \<union> set (handlers s ! b)"
        and so: "same_outside (set called') (handlers s) (handlers s')" by auto
      have "same_outside (set called') T (handlers s)"
        using Cons.prems(1) by (rule same_outside_mono) (simp add: c)
      from this so have inv: "same_outside (set called') T (handlers s')"
        by (rule same_outside_trans)
      from Cons.IH [OF inv rest] Inr p True bs r c show ?thesis
        by (simp add: vis run_append)
    qed
  qed
qed

lemma emit_map_sum: "emit code d hint s =
   map_sum id snd (emit_loop code d (bits_below (hint_or_default hint s)) [] s)"
  by (simp add: emit_def split: sum.splits prod.splits)

section \<open>What one call of a handler does\<close>

lemma remove_loop_append:
  "remove_loop h (xs @ ys) s =
     (case remove_loop h xs s of Inl e \<Rightarrow> Inl e | Inr s' \<Rightarrow> remove_loop h ys s')"
  by (induction xs arbitrary: s) simp_all

lemma remove_loop_within:
  assumes "n \<le> length (handlers s)"
  shows "remove_loop h [0..<n] s = Inr (s\<lparr>handlers := delete_below h (int n) (handlers s)\<rparr>)"
proof -
  have "\<And>i. i \<in> set [0..<n] \<Longrightarrow> i < length (handlers s)" using assms by simp
  from remove_loop_ok [of "[0..<n]" s h, OF this] obtain s' where s':
    "remove_loop h [0..<n] s = Inr s'" "length (handlers s') = length (handlers s)"
    "maxBits s' = maxBits s" "closures s' = closures s" "trace s' = trace s"
    "\<forall>i < length (handlers s). handlers s' ! i =
        (if i \<in> set [0..<n] then set_delete h (handlers s ! i) else handlers s ! i)"
    by blast
  have "s' = s\<lparr>handlers := delete_below h (int n) (handlers s)\<rparr>"
    by (rule emitter_eqI) (use s' in \<open>simp_all add: delete_below_def\<close>)
  with s'(1) show ?thesis by simp
qed

lemma delete_below_all:
  "int (length tbl) \<le> n \<Longrightarrow> delete_below h n tbl = delete_below h (int (length tbl)) tbl"
  by (auto simp: delete_below_def)

lemma length_delete_below [simp]: "length (delete_below h n tbl) = length tbl"
  by (simp add: delete_below_def)

lemma remove_exact:
  "remove h (Some n) s =
     (if n \<le> int (length (handlers s))
      then Inr (s\<lparr>handlers := delete_below h n (handlers s)\<rparr>)
      else Inl (TypeError, s\<lparr>handlers := delete_below h n (handlers s)\<rparr>))"
proof (cases "n \<le> int (length (handlers s))")
  case True
  then have "nat n \<le> length (handlers s)" by simp
  from remove_loop_within [OF this, of h] True show ?thesis
    by (simp add: remove_def hint_or_default_def bits_below_def delete_below_def)
next
  case False
  let ?L = "length (handlers s)"
  from False have lt: "?L < nat n" by simp
  have "[0..<?L + (nat n - ?L)] = [0..<?L] @ [?L..<?L + (nat n - ?L)]"
    by (rule upt_add_eq_append) simp
  with lt have split: "[0..<nat n] = [0..<?L] @ ?L # [Suc ?L..<nat n]"
    by (simp add: upt_conv_Cons)
  have pre: "remove_loop h [0..<?L] s = Inr (s\<lparr>handlers := delete_below h (int ?L) (handlers s)\<rparr>)"
    by (rule remove_loop_within) simp
  have same: "delete_below h n (handlers s) = delete_below h (int ?L) (handlers s)"
    by (rule delete_below_all) (use False in simp)
  have "remove h (Some n) s = remove_loop h ([0..<?L] @ ?L # [Suc ?L..<nat n]) s"
    unfolding remove_def hint_or_default_def bits_below_def using split by simp
  also have "\<dots> = Inl (TypeError, s\<lparr>handlers := delete_below h (int ?L) (handlers s)\<rparr>)"
    unfolding remove_loop_append pre by simp
  finally show ?thesis using False same by simp
qed

lemma invoke_exact:
  assumes "length (handlers s) = L"
  shows "invoke h d c (s\<lparr>trace := trace s @ [EmitCall h d c]\<rparr>) =
     (if returns L h then Inr (step d c h s) else Inl (failure h, step d c h s))"
proof (cases h)
  case (Fn cb)
  then show ?thesis by (cases cb) (simp_all add: step_def)
next
  case (OnceHandler k cb n)
  show ?thesis
  proof (cases cb)
    case (Returns m)
    with OnceHandler assms show ?thesis
      by (simp add: step_def remove_exact)
  next
    case (Throws m)
    with OnceHandler show ?thesis by (simp add: step_def)
  qed
qed

lemma length_strip [simp]: "length (strip h tbl) = length tbl"
  by (induction h tbl rule: strip.induct) simp_all

lemma length_step [simp]: "length (handlers (step d c h s)) = length (handlers s)"
  by (simp add: step_def)

lemma run_exact:
  assumes "length (handlers s) = L"
  shows "state_of (run d c hs s) = fold (step d c) (upto_failure L hs) s \<and>
         raised (run d c hs s) = map_option failure (find (\<lambda>h. \<not> returns L h) hs)"
  using assms
proof (induction hs arbitrary: s)
  case Nil
  then show ?case by simp
next
  case (Cons h hs)
  have len: "length (handlers (step d c h s)) = L" using Cons.prems by simp
  show ?case
  proof (cases "returns L h")
    case True
    with Cons.IH [OF len] invoke_exact [OF Cons.prems, of h d c] show ?thesis by simp
  next
    case False
    with invoke_exact [OF Cons.prems, of h d c] show ?thesis by simp
  qed
qed

section \<open>The outcome of emit\<close>

lemma emit_loop_append:
  "emit_loop code d (xs @ ys) called s =
     (case emit_loop code d xs called s of
        Inl e \<Rightarrow> Inl e
      | Inr (called', s') \<Rightarrow> emit_loop code d ys called' s')"
  by (induction xs arbitrary: called s) (simp_all split: sum.splits prod.splits)

lemma handlers_fold_step [simp]:
  "length (handlers (fold (step d c) hs s)) = length (handlers s)"
  by (induction hs arbitrary: s) simp_all

lemma trace_fold_step:
  "trace (fold (step d c) hs s) = trace s @ concat (map (events_for d c) hs)"
  by (induction hs arbitrary: s) (simp_all add: step_def)

lemma frame_fold_step [simp]:
  "maxBits (fold (step d c) hs s) = maxBits s" "closures (fold (step d c) hs s) = closures s"
  by (induction hs arbitrary: s) (simp_all add: step_def)

lemma handlers_fold_step_eq:
  "handlers (fold (step d c) hs s) = fold strip hs (handlers s)"
  by (induction hs arbitrary: s) (simp_all add: step_def)

lemma emit_calls_append: "emit_calls (xs @ ys) = emit_calls xs @ emit_calls ys"
  by (induction xs rule: emit_calls.induct) simp_all

lemma emit_calls_events_for:
  "emit_calls (concat (map (events_for d c) hs)) = map (\<lambda>h. (h, d, c)) hs"
proof (induction hs)
  case Nil
  then show ?case by simp
next
  case (Cons h hs)
  then show ?case by (cases h) simp_all
qed

lemma emit_exact:
  assumes "length (handlers s) = L"
  shows "emit code d hint s =
     (case run d code (dispatch_order code (scanned code (hint_or_default hint s) L) (handlers s)) s of
        Inl e \<Rightarrow> Inl e
      | Inr s' \<Rightarrow>
          if scanned code (hint_or_default hint s) L = bits_below (hint_or_default hint s)
          then Inr s' else Inl (TypeError, s'))"
proof -
  let ?bits = "bits_below (hint_or_default hint s)"
  let ?ok = "scanned code (hint_or_default hint s) L"
  let ?P = "\<lambda>b. \<not> (code_has code b \<and> L \<le> b)"
  have ok: "\<forall>b\<in>set ?ok. code_has code b \<longrightarrow> b < length (handlers s)"
    using assms by (auto simp: scanned_def dest: set_takeWhileD)
  have run_ok: "map_sum id snd (emit_loop code d ?ok [] s) =
      run d code (dispatch_order code ?ok (handlers s)) s"
    using emit_loop_run [of "[]" "handlers s" s ?ok code d] ok
    by (simp add: dispatch_order_def same_outside_refl)
  show ?thesis
  proof (cases "?ok = ?bits")
    case True
    with run_ok show ?thesis
      by (simp add: emit_map_sum split: sum.splits)
  next
    case False
    have app: "?bits = ?ok @ dropWhile ?P ?bits"
      by (simp add: scanned_def)
    have ne: "dropWhile ?P ?bits \<noteq> []"
    proof
      assume e: "dropWhile ?P ?bits = []"
      from app have "?bits = ?ok @ []" unfolding e .
      with False show False by simp
    qed
    then obtain b rest where br: "dropWhile ?P ?bits = b # rest"
      by (cases "dropWhile ?P ?bits") auto
    from hd_dropWhile [OF ne] br have bad: "code_has code b" "L \<le> b" by auto
    from app have split: "?bits = ?ok @ b # rest" unfolding br .
    show ?thesis
    proof (cases "emit_loop code d ?ok [] s")
      case (Inl e)
      with run_ok have "run d code (dispatch_order code ?ok (handlers s)) s = Inl e" by simp
      with Inl False show ?thesis
        unfolding emit_map_sum by (subst split) (simp add: emit_loop_append)
    next
      case (Inr p)
      obtain called' s' where p: "p = (called', s')" by (cases p)
      with Inr run_ok have r: "run d code (dispatch_order code ?ok (handlers s)) s = Inr s'" by simp
      with run_exact [OF assms, of d code "dispatch_order code ?ok (handlers s)"]
      have "length (handlers s') = L" using assms by simp
      with Inr p r False bad show ?thesis
        unfolding emit_map_sum by (subst split) (simp add: emit_loop_append)
    qed
  qed
qed

section \<open>Consequences for single handlers\<close>

lemma four_slots_built: "new 4 = Inr four_slots"
  by (simp add: new_def four_slots_def numeral_eq_Suc)

lemma two_slots_built:
  "new 2 = Inr (two_slots\<lparr>handlers := [[], []]\<rparr>) \<and>
   on 1 (Fn (Returns 1)) None (two_slots\<lparr>handlers := [[], []]\<rparr>) =
     Inr (two_slots\<lparr>handlers := [[Fn (Returns 1)], []]\<rparr>) \<and>
   on 3 (Fn (Returns 2)) None (two_slots\<lparr>handlers := [[Fn (Returns 1)], []]\<rparr>) = Inr two_slots"
  by code_simp

lemma on_loop_frame:
  "maxBits (state_of (on_loop code h bs s)) = maxBits s"
  by (induction bs arbitrary: s) simp_all

lemma within_table:
  assumes "well_formed s" "hint_or_default hint s \<le> maxBits s"
  shows "i \<in> set (bits_below (hint_or_default hint s)) \<Longrightarrow> i < length (handlers s)"
  using assms by (auto simp: well_formed_def bits_below_def)

lemma emit_state:
  assumes "length (handlers s) = L"
  shows "state_of (emit code d hint s) =
     fold (step d code)
       (upto_failure L (dispatch_order code (scanned code (hint_or_default hint s) L) (handlers s))) s"
proof -
  let ?order = "dispatch_order code (scanned code (hint_or_default hint s) L) (handlers s)"
  from run_exact [OF assms, of d code ?order]
  have "state_of (run d code ?order s) = fold (step d code) (upto_failure L ?order) s" by simp
  then show ?thesis
    unfolding emit_exact [OF assms] by (cases "run d code ?order s") auto
qed

lemma emit_raised:
  assumes "length (handlers s) = L"
  shows "raised (emit code d hint s) =
     (case find (\<lambda>h. \<not> returns L h)
             (dispatch_order code (scanned code (hint_or_default hint s) L) (handlers s)) of
        Some g \<Rightarrow> Some (failure g)
      | None \<Rightarrow>
          if scanned code (hint_or_default hint s) L = bits_below (hint_or_default hint s)
          then None else Some TypeError)"
proof -
  let ?order = "dispatch_order code (scanned code (hint_or_default hint s) L) (handlers s)"
  from run_exact [OF assms, of d code ?order]
  have r: "raised (run d code ?order s) = map_option failure (find (\<lambda>h. \<not> returns L h) ?order)"
    by simp
  show ?thesis
  proof (cases "run d code ?order s")
    case (Inl p)
    obtain e t where "p = (e, t)" by (cases p)
    with Inl r show ?thesis
      unfolding emit_exact [OF assms] by (auto split: option.splits)
  next
    case (Inr t)
    with r show ?thesis
      unfolding emit_exact [OF assms] by (auto split: option.splits)
  qed
qed

lemma emit_events:
  assumes "length (handlers s) = L"
  shows "events_of s (emit code d hint s) =
     concat (map (events_for d code)
       (upto_failure L (dispatch_order code (scanned code (hint_or_default hint s) L) (handlers s))))"
  by (simp add: events_of_def emit_state [OF assms] trace_fold_step)

lemma emit_calls_emit:
  assumes "length (handlers s) = L"
  shows "emit_calls (events_of s (emit code d hint s)) =
     map (\<lambda>h. (h, d, code))
       (upto_failure L (dispatch_order code (scanned code (hint_or_default hint s) L) (handlers s)))"
  by (simp add: emit_events [OF assms] emit_calls_events_for)


lemma upto_failure_append:
  "list_all (returns L) pre \<Longrightarrow> upto_failure L (pre @ hs) = pre @ upto_failure L hs"
  by (induction pre) simp_all

lemma set_upto_failure: "set (upto_failure L hs) \<subseteq> set hs"
  by (induction hs) auto

lemma scanned_within:
  "n \<le> int L \<Longrightarrow> scanned code n L = bits_below n"
  by (auto simp: scanned_def bits_below_def takeWhile_eq_all_conv)

lemma callback_throws:
  "callback_of g = Throws m \<Longrightarrow> \<not> returns L g \<and> failure g = Thrown m"
  by (cases g) auto

lemma unregistered_nth:
  "unregistered h tbl \<longleftrightarrow> (\<forall>i < length tbl. h \<notin> set (tbl ! i))"
  by (simp add: unregistered_def list_all_length)

lemma others_return_nth:
  "others_return h tbl \<longleftrightarrow>
     (\<forall>i < length tbl. \<forall>g \<in> set (tbl ! i). g = h \<or> returns (length tbl) g)"
  unfolding others_return_def list_all_iff by (metis in_set_conv_nth)

lemma set_pending:
  "set (pending code bits tbl) = (\<Union>b \<in> {b \<in> set bits. code_has code b}. set (tbl ! b))"
  by (auto simp: pending_def)

lemma set_dispatch_order:
  "set (dispatch_order code bits tbl) = (\<Union>b \<in> {b \<in> set bits. code_has code b}. set (tbl ! b))"
  by (simp add: dispatch_order_def set_visit set_pending)

lemma distinct_dispatch_order: "distinct (dispatch_order code bits tbl)"
  by (simp add: dispatch_order_def distinct_visit)

lemma scanned_in_table:
  "b \<in> set (scanned code n L) \<Longrightarrow> code_has code b \<Longrightarrow> b < L"
  by (auto simp: scanned_def dest: set_takeWhileD)

lemma invoked_by_calls:
  "emit_calls evs = map (\<lambda>g. (g, d, c)) hs \<Longrightarrow>
   invoked_by h evs = map (\<lambda>g. (d, c)) (filter (\<lambda>g. g = h) hs)"
  by (simp add: invoked_by_def filter_map comp_def)

lemma invoked_by_append: "invoked_by h (xs @ ys) = invoked_by h xs @ invoked_by h ys"
  by (simp add: invoked_by_def emit_calls_append)

lemma filter_absent: "h \<notin> set hs \<Longrightarrow> filter (\<lambda>g. g = h) hs = []"
  by (induction hs) auto

lemma filter_once: "distinct hs \<Longrightarrow> h \<in> set hs \<Longrightarrow> filter (\<lambda>g. g = h) hs = [h]"
  by (induction hs) (auto simp: filter_absent)

lemma not_invoked:
  assumes "\<And>i. i \<in> set (scanned code (hint_or_default hint s) (length (handlers s))) \<Longrightarrow>
             code_has code i \<Longrightarrow> h \<notin> set (handlers s ! i)"
  shows "invoked_by h (events_of s (emit code d hint s)) = []"
proof -
  let ?order = "dispatch_order code
      (scanned code (hint_or_default hint s) (length (handlers s))) (handlers s)"
  have "h \<notin> set ?order"
    using assms by (auto simp: set_dispatch_order)
  then have "h \<notin> set (upto_failure (length (handlers s)) ?order)"
    using set_upto_failure by blast
  then show ?thesis
    using invoked_by_calls [OF emit_calls_emit [OF refl, of s code d hint], of h]
    by (simp add: filter_absent)
qed

lemma upto_failure_keeps:
  assumes "\<And>g. g \<in> set hs \<Longrightarrow> g = h \<or> returns L g" "h \<in> set hs"
  shows "h \<in> set (upto_failure L hs)"
  using assms by (induction hs) auto

lemma distinct_upto_failure: "distinct hs \<Longrightarrow> distinct (upto_failure L hs)"
proof (induction hs)
  case Nil
  then show ?case by simp
next
  case (Cons a hs)
  with set_upto_failure [of L hs] show ?case by auto
qed

lemma invoked_once:
  assumes "others_return h (handlers s)"
    and "i \<in> set (scanned code (hint_or_default hint s) (length (handlers s)))"
    and "code_has code i" and "h \<in> set (handlers s ! i)"
  shows "invoked_by h (events_of s (emit code d hint s)) = [(d, code)]"
proof -
  let ?L = "length (handlers s)"
  let ?order = "dispatch_order code (scanned code (hint_or_default hint s) ?L) (handlers s)"
  have mem: "h \<in> set ?order"
    using assms(2-4) by (auto simp: set_dispatch_order)
  have "g = h \<or> returns ?L g" if "g \<in> set ?order" for g
  proof -
    from that obtain b where "b \<in> set (scanned code (hint_or_default hint s) ?L)"
      "code_has code b" "g \<in> set (handlers s ! b)"
      by (auto simp: set_dispatch_order)
    with scanned_in_table [of b code "hint_or_default hint s" ?L] assms(1) show ?thesis
      by (auto simp: others_return_nth)
  qed
  then have "h \<in> set (upto_failure ?L ?order)"
    using mem by (rule upto_failure_keeps)
  moreover have "distinct (upto_failure ?L ?order)"
    by (simp add: distinct_upto_failure distinct_dispatch_order)
  ultimately have "filter (\<lambda>g. g = h) (upto_failure ?L ?order) = [h]"
    by (simp add: filter_once)
  then show ?thesis
    using invoked_by_calls [OF emit_calls_emit [OF refl, of s code d hint], of h]
    by simp
qed

lemma strip_subset: "i < length tbl \<Longrightarrow> set (strip g tbl ! i) \<subseteq> set (tbl ! i)"
  by (induction g tbl rule: strip.induct) (auto simp: delete_below_def set_delete_def)

lemma fold_strip_length [simp]: "length (fold strip hs tbl) = length tbl"
  by (induction hs arbitrary: tbl) simp_all

lemma fold_strip_subset:
  "i < length tbl \<Longrightarrow> set (fold strip hs tbl ! i) \<subseteq> set (tbl ! i)"
proof (induction hs arbitrary: tbl)
  case Nil
  then show ?case by simp
next
  case (Cons g hs)
  from Cons.prems have "i < length (strip g tbl)" by simp
  from Cons.IH [OF this] strip_subset [OF Cons.prems, of g] show ?case by auto
qed

lemma emit_table_subset:
  "i < length (handlers s) \<Longrightarrow>
   set (handlers (state_of (emit code d hint s)) ! i) \<subseteq> set (handlers s ! i)"
  by (simp add: emit_state [OF refl] handlers_fold_step_eq fold_strip_subset)

lemma emit_table_length [simp]:
  "length (handlers (state_of (emit code d hint s))) = length (handlers s)"
  by (simp add: emit_state [OF refl])

lemma emit_trace:
  "trace (state_of (emit code d hint s)) = trace s @ events_of s (emit code d hint s)"
  by (simp add: events_of_def emit_state [OF refl] trace_fold_step)

lemma emit_keeps_unregistered:
  "unregistered h (handlers s) \<Longrightarrow> unregistered h (handlers (state_of (emit code d hint s)))"
  using emit_table_subset [of _ s code d hint] by (auto simp: unregistered_nth)

lemma unregistered_not_invoked:
  assumes "unregistered h (handlers s)"
  shows "invoked_by h (events_of s (emit code d hint s)) = []"
proof (rule not_invoked)
  fix i assume "i \<in> set (scanned code (hint_or_default hint s) (length (handlers s)))"
    "code_has code i"
  then have "i < length (handlers s)" by (rule scanned_in_table)
  with assms show "h \<notin> set (handlers s ! i)" by (simp add: unregistered_nth)
qed

lemma emits_unregistered:
  assumes "unregistered h (handlers s)"
  shows "\<exists>evs. trace (emits es s) = trace s @ evs \<and> invoked_by h evs = [] \<and>
           unregistered h (handlers (emits es s))"
  using assms
proof (induction es arbitrary: s)
  case Nil
  then show ?case by (simp add: invoked_by_def)
next
  case (Cons e es)
  obtain code d hint where e: "e = (code, d, hint)" by (cases e)
  let ?t = "state_of (emit code d hint s)"
  from Cons.prems have "unregistered h (handlers ?t)" by (rule emit_keeps_unregistered)
  from Cons.IH [OF this] obtain evs where evs: "trace (emits es ?t) = trace ?t @ evs"
    "invoked_by h evs = []" "unregistered h (handlers (emits es ?t))" by blast
  have "trace (emits (e # es) s) = trace s @ (events_of s (emit code d hint s) @ evs)"
    using evs(1) by (simp add: e emit_trace)
  moreover have "invoked_by h (events_of s (emit code d hint s) @ evs) = []"
    using evs(2) unregistered_not_invoked [OF Cons.prems] by (simp add: invoked_by_append)
  ultimately show ?case using evs(3) by (auto simp: e)
qed

lemma delete_below_unregisters:
  "int (length tbl) \<le> n \<Longrightarrow> unregistered h (delete_below h n tbl)"
  by (auto simp: unregistered_nth delete_below_def set_delete_def)

lemma delete_below_id:
  "unregistered h tbl \<Longrightarrow> delete_below h n tbl = tbl"
  by (auto simp: unregistered_nth delete_below_def set_delete_def intro!: nth_equalityI)

lemma on_in_table:
  assumes "well_formed s" "hint_or_default hint s \<le> maxBits s"
  shows "\<exists>s'. on code h hint s = Inr s' \<and>
      maxBits s' = maxBits s \<and> closures s' = closures s \<and> trace s' = trace s \<and>
      length (handlers s') = length (handlers s) \<and>
      (\<forall>i < length (handlers s). handlers s' ! i =
         (if i < nat (hint_or_default hint s) \<and> code_has code i
          then set_add h (handlers s ! i) else handlers s ! i))"
proof -
  have "\<And>i. i \<in> set (bits_below (hint_or_default hint s)) \<Longrightarrow> code_has code i \<Longrightarrow>
      i < length (handlers s)"
    using within_table [OF assms] by simp
  from on_loop_ok [of "bits_below (hint_or_default hint s)" code s h, OF this]
  obtain s' where "on_loop code h (bits_below (hint_or_default hint s)) s = Inr s'"
    "length (handlers s') = length (handlers s)"
    "maxBits s' = maxBits s" "closures s' = closures s" "trace s' = trace s"
    "\<forall>i < length (handlers s). handlers s' ! i =
       (if i \<in> set (bits_below (hint_or_default hint s)) \<and> code_has code i
        then set_add h (handlers s ! i) else handlers s ! i)"
    by blast
  then show ?thesis
    by (intro exI [of _ s']) (simp add: on_def bits_below_def)
qed

lemma code_has_bit: "code_has code i \<longleftrightarrow> bit (toInt32 code) (i mod 32)"
  by (simp add: code_has_def js_shl1_def bit_iff_and_push_bit_not_eq_0)

lemma overlap_iff:
  "(\<exists>i<n. code_has a i \<and> code_has b i) \<longleftrightarrow> js_and a b AND mask n \<noteq> 0"
proof
  assume "\<exists>i<n. code_has a i \<and> code_has b i"
  then obtain i where i: "i < n" "bit (toInt32 a) (i mod 32)" "bit (toInt32 b) (i mod 32)"
    by (auto simp: code_has_bit)
  have "i mod 32 < n" using i(1) by (meson le_less_trans mod_less_eq_dividend)
  with i have "bit (js_and a b AND mask n) (i mod 32)"
    by (simp add: js_and_def bit_simps)
  then show "js_and a b AND mask n \<noteq> 0" by auto
next
  assume "js_and a b AND mask n \<noteq> 0"
  have "\<exists>k. bit (js_and a b AND mask n) k"
  proof (rule ccontr)
    assume "\<not> (\<exists>k. bit (js_and a b AND mask n) k)"
    then have "js_and a b AND mask n = 0"
      by (intro bit_word_eqI) simp
    with \<open>js_and a b AND mask n \<noteq> 0\<close> show False by simp
  qed
  then obtain k where k: "bit (js_and a b AND mask n) k" by blast
  then have "k < 32" using bit_imp_le_length by fastforce
  with k have "k < n" "code_has a k" "code_has b k"
    by (simp_all add: js_and_def bit_simps code_has_bit)
  then show "\<exists>i<n. code_has a i \<and> code_has b i" by blast
qed

lemma others_return_subset:
  assumes "others_return h T" "length T' = length T"
    "\<And>i. i < length T \<Longrightarrow> set (T' ! i) \<subseteq> insert h (set (T ! i))"
  shows "others_return h T'"
  using assms unfolding others_return_nth by (metis insert_iff subsetD)

lemma default_scan:
  "well_formed s \<Longrightarrow> scanned code (hint_or_default None s) (length (handlers s)) =
     bits_below (maxBits s)"
  by (simp add: hint_or_default_def well_formed_def scanned_within)

lemma in_bits_below: "i \<in> set (bits_below n) \<longleftrightarrow> i < nat n"
  by (simp add: bits_below_def)




lemma emit_frame [simp]:
  "maxBits (state_of (emit code d hint s)) = maxBits s"
  "closures (state_of (emit code d hint s)) = closures s"
  by (simp_all add: emit_state [OF refl])

lemma emit_well_formed:
  "well_formed s \<Longrightarrow> well_formed (state_of (emit code d hint s))"
  by (simp add: well_formed_def)



section \<open>The life of a closure of once\<close>

lemma no_closure_nth:
  "no_closure k tbl \<longleftrightarrow> (\<forall>i < length tbl. \<forall>g \<in> set (tbl ! i). closure_number g \<noteq> Some k)"
  unfolding no_closure_def list_all_iff by (metis in_set_conv_nth)



















section \<open>Invariants of the reachable states\<close>

lemma numbered_nth:
  "numbered s \<longleftrightarrow>
     (\<forall>i < length (handlers s). \<forall>g \<in> set (handlers s ! i). \<forall>k.
        closure_number g = Some k \<longrightarrow> k < closures s)"
  unfolding numbered_def list_all_iff
  by (auto simp: in_set_conv_nth split: option.splits) (metis nth_mem)+

lemma numbered_fresh: "numbered s \<Longrightarrow> no_closure (closures s) (handlers s)"
  unfolding numbered_nth no_closure_nth by fastforce

lemma numbered_subset:
  assumes "numbered s" "length (handlers t) = length (handlers s)" "closures s \<le> closures t"
    and "\<And>i g. i < length (handlers s) \<Longrightarrow> g \<in> set (handlers t ! i) \<Longrightarrow>
           g \<in> set (handlers s ! i) \<or> (\<forall>k. closure_number g = Some k \<longrightarrow> k < closures t)"
  shows "numbered t"
  unfolding numbered_nth
proof (intro allI impI ballI)
  fix i g k assume i: "i < length (handlers t)" and g: "g \<in> set (handlers t ! i)"
    and k: "closure_number g = Some k"
  from i assms(2) have i': "i < length (handlers s)" by simp
  from assms(4) [OF i' g] show "k < closures t"
  proof
    assume "g \<in> set (handlers s ! i)"
    with assms(1) i' k have "k < closures s" unfolding numbered_nth by blast
    with assms(3) show ?thesis by simp
  next
    assume "\<forall>k. closure_number g = Some k \<longrightarrow> k < closures t"
    with k show ?thesis by blast
  qed
qed

lemma numbered_grows:
  assumes "numbered s" "length (handlers t) = length (handlers s)" "closures s \<le> closures t"
    and "\<forall>i < length (handlers s). set (handlers t ! i) \<subseteq> insert h (set (handlers s ! i))"
    and "\<And>k. closure_number h = Some k \<Longrightarrow> k < closures t"
  shows "numbered t"
proof (rule numbered_subset [OF assms(1-3)])
  fix i g assume "i < length (handlers s)" "g \<in> set (handlers t ! i)"
  with assms(4) have "g = h \<or> g \<in> set (handlers s ! i)" by blast
  with assms(5) show "g \<in> set (handlers s ! i) \<or> (\<forall>k. closure_number g = Some k \<longrightarrow> k < closures t)"
    by blast
qed

lemma numbered_shrinks:
  assumes "numbered s" "length (handlers t) = length (handlers s)" "closures s \<le> closures t"
    and "\<forall>i < length (handlers s). set (handlers t ! i) \<subseteq> set (handlers s ! i)"
  shows "numbered t"
proof (rule numbered_subset [OF assms(1-3)])
  fix i g assume "i < length (handlers s)" "g \<in> set (handlers t ! i)"
  with assms(4) show "g \<in> set (handlers s ! i) \<or> (\<forall>k. closure_number g = Some k \<longrightarrow> k < closures t)"
    by blast
qed

lemma on_loop_grows:
  "length (handlers (state_of (on_loop code h bs s))) = length (handlers s) \<and>
   closures (state_of (on_loop code h bs s)) = closures s \<and>
   (\<forall>i < length (handlers s).
      set (handlers (state_of (on_loop code h bs s)) ! i) \<subseteq> insert h (set (handlers s ! i)))"
proof (induction bs arbitrary: s)
  case Nil
  then show ?case by auto
next
  case (Cons b bs)
  show ?case
  proof (cases "code_has code b \<and> b < length (handlers s)")
    case False
    with Cons.IH [of s] show ?thesis by auto
  next
    case True
    let ?t = "s\<lparr>handlers := (handlers s)[b := set_add h (handlers s ! b)]\<rparr>"
    have "set (handlers ?t ! i) \<subseteq> insert h (set (handlers s ! i))" if "i < length (handlers s)" for i
      using that by (cases "i = b") (auto simp: in_set_add)
    with Cons.IH [of ?t] True show ?thesis by fastforce
  qed
qed

lemma removeGroup_inner_shrinks:
  "length (handlers (state_of (removeGroup_inner b hs s))) = length (handlers s) \<and>
   maxBits (state_of (removeGroup_inner b hs s)) = maxBits s \<and>
   closures (state_of (removeGroup_inner b hs s)) = closures s \<and>
   (\<forall>i < length (handlers s).
      set (handlers (state_of (removeGroup_inner b hs s)) ! i) \<subseteq> set (handlers s ! i))"
proof (induction hs arbitrary: s)
  case Nil
  then show ?case by auto
next
  case (Cons h hs)
  show ?case
  proof (cases "b < length (handlers s)")
    case False
    then show ?thesis by auto
  next
    case True
    let ?t = "s\<lparr>handlers := (handlers s)[b := set_delete h (handlers s ! b)]\<rparr>"
    have "set (handlers ?t ! i) \<subseteq> set (handlers s ! i)" if "i < length (handlers s)" for i
      using that by (cases "i = b") (auto simp: set_delete_def)
    with Cons.IH [of ?t] True show ?thesis by fastforce
  qed
qed

lemma removeGroup_loop_shrinks:
  "length (handlers (state_of (removeGroup_loop hs bs s))) = length (handlers s) \<and>
   maxBits (state_of (removeGroup_loop hs bs s)) = maxBits s \<and>
   closures (state_of (removeGroup_loop hs bs s)) = closures s \<and>
   (\<forall>i < length (handlers s).
      set (handlers (state_of (removeGroup_loop hs bs s)) ! i) \<subseteq> set (handlers s ! i))"
proof (induction bs arbitrary: s)
  case Nil
  then show ?case by auto
next
  case (Cons b bs)
  note inner = removeGroup_inner_shrinks [of b hs s]
  show ?case
  proof (cases "removeGroup_inner b hs s")
    case (Inl p)
    obtain e t where "p = (e, t)" by (cases p)
    with Inl inner show ?thesis by auto
  next
    case (Inr t)
    with inner Cons.IH [of t] show ?thesis by fastforce
  qed
qed

lemma remove_loop_shrinks:
  "\<forall>i < length (handlers s).
      set (handlers (state_of (remove_loop h bs s)) ! i) \<subseteq> set (handlers s ! i)"
proof (induction bs arbitrary: s)
  case Nil
  then show ?case by auto
next
  case (Cons b bs)
  show ?case
  proof (cases "b < length (handlers s)")
    case False
    then show ?thesis by auto
  next
    case True
    let ?t = "s\<lparr>handlers := (handlers s)[b := set_delete h (handlers s ! b)]\<rparr>"
    have "set (handlers ?t ! i) \<subseteq> set (handlers s ! i)" if "i < length (handlers s)" for i
      using that by (cases "i = b") (auto simp: set_delete_def)
    with Cons.IH [of ?t] True show ?thesis by fastforce
  qed
qed

lemma new_invariant: "new mb = Inr s \<Longrightarrow> well_formed s \<and> numbered s"
  by (auto simp: new_def well_formed_def numbered_def list_all_iff split: if_splits)

lemma on_invariant:
  assumes "well_formed s" "numbered s" "closure_number h = None"
  shows "well_formed (state_of (on code h hint s)) \<and> numbered (state_of (on code h hint s))"
proof -
  note g = on_loop_grows [of code h "bits_below (hint_or_default hint s)" s]
  have "well_formed (state_of (on code h hint s))"
    using assms(1) g by (simp add: well_formed_def on_def on_loop_frame)
  moreover have "numbered (state_of (on code h hint s))"
    unfolding on_def by (rule numbered_grows [OF assms(2), of _ h]) (use g assms(3) in simp_all)
  ultimately show ?thesis by simp
qed

lemma remove_invariant:
  assumes "well_formed s" "numbered s"
  shows "well_formed (state_of (remove h hint s)) \<and> numbered (state_of (remove h hint s))"
proof -
  note f = remove_loop_frame [of h "bits_below (hint_or_default hint s)" s]
  note g = remove_loop_shrinks [of s h "bits_below (hint_or_default hint s)"]
  have "well_formed (state_of (remove h hint s))"
    using assms(1) f by (simp add: well_formed_def remove_def)
  moreover have "numbered (state_of (remove h hint s))"
    unfolding remove_def by (rule numbered_shrinks [OF assms(2)]) (use f g in simp_all)
  ultimately show ?thesis by simp
qed

lemma removeGroup_invariant:
  assumes "well_formed s" "numbered s"
  shows "well_formed (state_of (removeGroup hs hint s)) \<and>
         numbered (state_of (removeGroup hs hint s))"
proof -
  note g = removeGroup_loop_shrinks [of hs "bits_below (hint_or_default hint s)" s]
  have "well_formed (state_of (removeGroup hs hint s))"
    using assms(1) g by (simp add: well_formed_def removeGroup_def)
  moreover have "numbered (state_of (removeGroup hs hint s))"
    unfolding removeGroup_def by (rule numbered_shrinks [OF assms(2)]) (use g in simp_all)
  ultimately show ?thesis by simp
qed

lemma once_invariant:
  assumes "well_formed s" "numbered s"
  shows "well_formed (state_of (once code cb hint s)) \<and> numbered (state_of (once code cb hint s))"
proof -
  let ?n = "hint_or_default hint s"
  let ?A = "OnceHandler (closures s) cb ?n"
  let ?s0 = "s\<lparr>closures := Suc (closures s)\<rparr>"
  have o: "once code cb hint s = on_loop code ?A (bits_below ?n) ?s0"
    by (simp add: once_def on_def Let_def hint_or_default_def)
  note g = on_loop_grows [of code ?A "bits_below ?n" ?s0]
  have "well_formed (state_of (once code cb hint s))"
    using assms(1) g unfolding o by (simp add: well_formed_def on_loop_frame)
  moreover have "numbered (state_of (once code cb hint s))"
    unfolding o by (rule numbered_grows [OF assms(2), of _ ?A]) (use g in simp_all)
  ultimately show ?thesis by simp
qed

lemma emit_invariant:
  assumes "well_formed s" "numbered s"
  shows "well_formed (state_of (emit code d hint s)) \<and> numbered (state_of (emit code d hint s))"
proof -
  have "numbered (state_of (emit code d hint s))"
    by (rule numbered_shrinks [OF assms(2)])
       (use emit_table_subset [of _ s code d hint] in simp_all)
  with emit_well_formed [OF assms(1)] show ?thesis by simp
qed

lemma reachable_invariant: "reachable s \<Longrightarrow> well_formed s \<and> numbered s"
proof (induction rule: reachable.induct)
  case (constructed mb s)
  then show ?case by (rule new_invariant)
next
  case (after_on s code cb hint)
  then show ?case by (simp add: on_invariant)
next
  case (after_remove s h hint)
  then show ?case by (simp add: remove_invariant)
next
  case (after_removeGroup s hs hint)
  then show ?case by (simp add: removeGroup_invariant)
next
  case (after_once s code cb hint)
  then show ?case by (simp add: once_invariant)
next
  case (after_emit s code d hint)
  then show ?case by (simp add: emit_invariant)
qed

section \<open>The claims\<close>

text \<open>
  C1 (as amended). In an emitter whose table has \<^verbatim>\<open>maxBits\<close> slots, in which
  \<open>h\<close> is not yet registered and every other registered handler returns when called:
  \<^verbatim>\<open>on(code, h)\<close> returns, and \<^verbatim>\<open>emit(code', data)\<close> then calls \<open>h\<close> when
  \<^verbatim>\<open>code & code'\<close> has a set bit at a position below \<^verbatim>\<open>maxBits\<close>, once and with
  \<open>(data, code')\<close>, and does not call it otherwise. Both calls leave the hint out.
  With \<^verbatim>\<open>maxBits\<close> of 32 or more the mask is all ones, and the condition is
  \<^verbatim>\<open>code & code' != 0\<close>.
\<close>

theorem on_then_emit:
  assumes "well_formed s" "unregistered h (handlers s)" "others_return h (handlers s)"
  shows "\<exists>s1. on code h None s = Inr s1 \<and>
           invoked_by h (events_of s1 (emit code' d None s1)) =
             (if js_and code code' AND mask (nat (maxBits s)) \<noteq> 0 then [(d, code')] else [])"
proof -
  let ?L = "length (handlers s)"
  from assms(1) have L: "?L = nat (maxBits s)" by (simp add: well_formed_def)
  have "hint_or_default None s \<le> maxBits s" by (simp add: hint_or_default_def)
  from on_in_table [OF assms(1) this, of code h] obtain s1 where s1:
    "on code h None s = Inr s1" "maxBits s1 = maxBits s"
    "length (handlers s1) = ?L"
    "\<forall>i < ?L. handlers s1 ! i =
       (if i < nat (hint_or_default None s) \<and> code_has code i
        then set_add h (handlers s ! i) else handlers s ! i)"
    by blast
  have slot: "handlers s1 ! i = (if code_has code i then set_add h (handlers s ! i) else handlers s ! i)"
    if "i < ?L" for i
    using s1(4) that L by (simp add: hint_or_default_def)
  have mem: "h \<in> set (handlers s1 ! i) \<longleftrightarrow> code_has code i" if "i < ?L" for i
    using slot [OF that] assms(2) that by (simp add: in_set_add unregistered_nth)
  have wf1: "well_formed s1" using s1 L by (simp add: well_formed_def)
  have others: "others_return h (handlers s1)"
    by (rule others_return_subset [OF assms(3)]) (use s1(3) slot in \<open>auto simp: in_set_add\<close>)
  have scan: "scanned code' (hint_or_default None s1) (length (handlers s1)) = bits_below (maxBits s)"
    using default_scan [OF wf1] s1(2) by simp
  show ?thesis
  proof (cases "\<exists>i<?L. code_has code i \<and> code_has code' i")
    case True
    then obtain i where i: "i < ?L" "code_has code i" "code_has code' i" by blast
    have "invoked_by h (events_of s1 (emit code' d None s1)) = [(d, code')]"
      by (rule invoked_once [OF others, of i])
         (use i mem L in \<open>simp_all add: scan in_bits_below\<close>)
    with True s1(1) show ?thesis by (simp add: overlap_iff [symmetric] L)
  next
    case False
    have "invoked_by h (events_of s1 (emit code' d None s1)) = []"
    proof (rule not_invoked)
      fix i assume "i \<in> set (scanned code' (hint_or_default None s1) (length (handlers s1)))"
        "code_has code' i"
      with False mem [of i] L show "h \<notin> set (handlers s1 ! i)"
        by (auto simp: scan in_bits_below)
    qed
    with False s1(1) show ?thesis by (simp add: overlap_iff [symmetric] L)
  qed
qed

text \<open>
  With four slots and \<^verbatim>\<open>on(0b0011, f)\<close>: \<^verbatim>\<open>emit(0b0101, 7)\<close> calls \<open>f\<close>
  with \<open>(7, 5)\<close>, and \<^verbatim>\<open>emit(0b1100, 7)\<close> does not call it.
\<close>

theorem on_then_emit_witness:
  "well_formed four_slots \<and> unregistered (Fn (Returns 1)) (handlers four_slots) \<and>
   others_return (Fn (Returns 1)) (handlers four_slots) \<and>
   on 3 (Fn (Returns 1)) None four_slots =
     Inr (four_slots\<lparr>handlers := [[Fn (Returns 1)], [Fn (Returns 1)], [], []]\<rparr>) \<and>
   invoked_by (Fn (Returns 1))
     (events_of (four_slots\<lparr>handlers := [[Fn (Returns 1)], [Fn (Returns 1)], [], []]\<rparr>)
        (emit 5 7 None (four_slots\<lparr>handlers := [[Fn (Returns 1)], [Fn (Returns 1)], [], []]\<rparr>)))
     = [(7, 5)] \<and>
   invoked_by (Fn (Returns 1))
     (events_of (four_slots\<lparr>handlers := [[Fn (Returns 1)], [Fn (Returns 1)], [], []]\<rparr>)
        (emit 12 7 None (four_slots\<lparr>handlers := [[Fn (Returns 1)], [Fn (Returns 1)], [], []]\<rparr>)))
     = []"
proof -
  have wf: "well_formed four_slots"
    by (simp add: well_formed_def four_slots_def)
  have un: "unregistered (Fn (Returns 1)) (handlers four_slots)"
    by (simp add: unregistered_def four_slots_def)
  have ot: "others_return (Fn (Returns 1)) (handlers four_slots)"
    by (simp add: others_return_def four_slots_def)
  have reg: "on 3 (Fn (Returns 1)) None four_slots =
     Inr (four_slots\<lparr>handlers := [[Fn (Returns 1)], [Fn (Returns 1)], [], []]\<rparr>)"
    by code_simp
  have m1: "js_and 3 5 AND mask (nat (maxBits four_slots)) \<noteq> 0"
    by (simp add: js_and_def toInt32_def four_slots_def mask_eq_exp_minus_1)
  have m2: "\<not> js_and 3 12 AND mask (nat (maxBits four_slots)) \<noteq> 0"
    by (simp add: js_and_def toInt32_def four_slots_def)
  from on_then_emit [OF wf un ot, of 3 5 7] on_then_emit [OF wf un ot, of 3 12 7] reg m1 m2
  show ?thesis using wf un ot by auto
qed

text \<open>
  C1 as stated fails for codes with bits at or above \<^verbatim>\<open>maxBits\<close>. With four slots,
  \<^verbatim>\<open>16 & 16\<close> is not zero, but \<^verbatim>\<open>on(16, f)\<close> registers nothing, since its loop
  ends at bit 3, and \<^verbatim>\<open>emit(16, 7)\<close> calls nothing.
\<close>

theorem emit_ignores_bits_past_table:
  "new 4 = Inr four_slots \<and> js_and 16 16 \<noteq> 0 \<and>
   on 16 (Fn (Returns 1)) None four_slots = Inr four_slots \<and>
   emit 16 7 None four_slots = Inr four_slots \<and>
   invoked_by (Fn (Returns 1)) (events_of four_slots (emit 16 7 None four_slots)) = []"
proof -
  have "js_and 16 16 \<noteq> 0"
    by (simp add: js_and_def toInt32_def)
  moreover have "on 16 (Fn (Returns 1)) None four_slots = Inr four_slots"
    by code_simp
  moreover have "emit 16 7 None four_slots = Inr four_slots"
    by code_simp
  moreover have "invoked_by (Fn (Returns 1)) (events_of four_slots (emit 16 7 None four_slots)) = []"
    by code_simp
  ultimately show ?thesis using four_slots_built by simp
qed






text \<open>
  C4. In an emitter whose table has \<^verbatim>\<open>maxBits\<close> slots, whatever is registered in it,
  \<^verbatim>\<open>remove(h)\<close> returns and leaves \<open>h\<close> in no slot; whatever
  \<^verbatim>\<open>emit\<close> calls follow (any codes, data and hints, returning or throwing), none of
  them calls \<open>h\<close>. When \<open>h\<close> was in no slot, the state is unchanged.
\<close>

theorem remove_is_complete:
  assumes "well_formed s"
  shows "\<exists>s'. remove h None s = Inr s' \<and>
           unregistered h (handlers s') \<and>
           (\<forall>es. invoked_by h (drop (length (trace s')) (trace (emits es s'))) = []) \<and>
           (unregistered h (handlers s) \<longrightarrow> s' = s)"
proof -
  let ?s' = "s\<lparr>handlers := delete_below h (maxBits s) (handlers s)\<rparr>"
  from assms have le: "maxBits s \<le> int (length (handlers s))"
    by (simp add: well_formed_def)
  then have r: "remove h None s = Inr ?s'"
    using remove_exact [of h "maxBits s" s] by (simp add: remove_def hint_or_default_def)
  from assms have "int (length (handlers s)) \<le> maxBits s \<or> handlers s = []"
    by (auto simp: well_formed_def)
  then have un: "unregistered h (handlers ?s')"
    by (auto simp: delete_below_unregisters) (simp add: unregistered_def delete_below_def)
  have "invoked_by h (drop (length (trace ?s')) (trace (emits es ?s'))) = []" for es
    using emits_unregistered [OF un, of es] by auto
  moreover have "unregistered h (handlers s) \<longrightarrow> ?s' = s"
    by (simp add: delete_below_id)
  ultimately show ?thesis using r un by blast
qed

text \<open>
  With \<open>f2\<close> on both bits of \<open>two_slots\<close>: \<^verbatim>\<open>remove(f2)\<close> leaves only
  \<open>f1\<close>, and \<^verbatim>\<open>emit(3, 50)\<close> followed by \<^verbatim>\<open>emit(2, 51, 2)\<close> does not call
  \<open>f2\<close>.
\<close>

theorem remove_is_complete_witness:
  "well_formed two_slots \<and>
   remove (Fn (Returns 2)) None two_slots = Inr (two_slots\<lparr>handlers := [[Fn (Returns 1)], []]\<rparr>) \<and>
   unregistered (Fn (Returns 2)) (handlers (two_slots\<lparr>handlers := [[Fn (Returns 1)], []]\<rparr>)) \<and>
   invoked_by (Fn (Returns 2))
     (drop (length (trace (two_slots\<lparr>handlers := [[Fn (Returns 1)], []]\<rparr>)))
        (trace (emits [(3, 50, None), (2, 51, Some 2)]
           (two_slots\<lparr>handlers := [[Fn (Returns 1)], []]\<rparr>)))) = []"
proof -
  have wf: "well_formed two_slots"
    by (simp add: well_formed_def two_slots_def)
  have rem: "remove (Fn (Returns 2)) None two_slots =
      Inr (two_slots\<lparr>handlers := [[Fn (Returns 1)], []]\<rparr>)"
    by code_simp
  from remove_is_complete [OF wf, of "Fn (Returns 2)"] obtain s' where s':
    "remove (Fn (Returns 2)) None two_slots = Inr s'"
    "unregistered (Fn (Returns 2)) (handlers s')"
    "\<forall>es. invoked_by (Fn (Returns 2)) (drop (length (trace s')) (trace (emits es s'))) = []"
    by blast
  from s'(1) rem have eq: "s' = two_slots\<lparr>handlers := [[Fn (Returns 1)], []]\<rparr>" by simp
  from s'(3) have "invoked_by (Fn (Returns 2))
     (drop (length (trace s')) (trace (emits [(3, 50, None), (2, 51, Some 2)] s'))) = []"
    by (rule spec)
  with wf rem s'(2) show ?thesis unfolding eq by (intro conjI)
qed

text \<open>
  C5 (as amended). When \<^verbatim>\<open>bitsHint\<close> does not exceed \<^verbatim>\<open>maxBits\<close> (the default
  does not), \<^verbatim>\<open>on(code, handler, bitsHint)\<close> returns for every integer code, negative
  ones included; it adds the handler to the slots \<open>i < bitsHint\<close> for which
  \<^verbatim>\<open>code & (1 << i)\<close> is not zero and leaves every other slot, and the rest of the
  emitter, as it was.
\<close>

theorem on_within_table:
  assumes "well_formed s" "hint_or_default hint s \<le> maxBits s"
  shows "\<exists>s'. on code h hint s = Inr s' \<and>
      maxBits s' = maxBits s \<and> closures s' = closures s \<and> trace s' = trace s \<and>
      length (handlers s') = length (handlers s) \<and>
      (\<forall>i < length (handlers s). handlers s' ! i =
         (if i < nat (hint_or_default hint s) \<and> code_has code i
          then set_add h (handlers s ! i) else handlers s ! i))"
  using assms by (rule on_in_table)

text \<open>
  On four slots, with code \<open>0b10110\<close> and hint 3: bits 1 and 2 are registered, bit 4
  is ignored.
\<close>

theorem on_within_table_witness:
  "well_formed four_slots \<and> hint_or_default (Some 3) four_slots \<le> maxBits four_slots \<and>
   on 22 (Fn (Returns 1)) (Some 3) four_slots =
     Inr (four_slots\<lparr>handlers := [[], [Fn (Returns 1)], [Fn (Returns 1)], []]\<rparr>)"
proof -
  have wf: "well_formed four_slots"
    by (simp add: well_formed_def four_slots_def)
  have hint: "hint_or_default (Some 3) four_slots \<le> maxBits four_slots"
    by (simp add: hint_or_default_def four_slots_def)
  have "on 22 (Fn (Returns 1)) (Some 3) four_slots =
     Inr (four_slots\<lparr>handlers := [[], [Fn (Returns 1)], [Fn (Returns 1)], []]\<rparr>)"
    by code_simp
  with wf hint on_within_table [OF wf hint, of 22 "Fn (Returns 1)"] show ?thesis by simp
qed

text \<open>
  C5 as stated fails when \<^verbatim>\<open>bitsHint\<close> exceeds \<^verbatim>\<open>maxBits\<close>: with four slots,
  \<^verbatim>\<open>on(0b10000, f, 5)\<close> reaches \<open>i = 4\<close>, finds the bit set, reads
  \<^verbatim>\<open>this.handlers[4]\<close>, which is \<^verbatim>\<open>undefined\<close>, and throws a TypeError.
\<close>

theorem on_past_table_throws:
  "new 4 = Inr four_slots \<and>
   on 16 (Fn (Returns 1)) (Some 5) four_slots = Inl (TypeError, four_slots)"
proof -
  have "on 16 (Fn (Returns 1)) (Some 5) four_slots = Inl (TypeError, four_slots)"
    by code_simp
  with four_slots_built show ?thesis by simp
qed




text \<open>
  C7. The calls \<^verbatim>\<open>emit(code, data, bitsHint)\<close> makes are, in this order, the handlers
  of \<open>dispatch_order\<close>: the slots of the bits set in \<open>code\<close>, in ascending bit
  position, each slot in its insertion order, a handler met a second time left out. Every
  call passes \<open>data\<close> and the whole of \<open>code\<close>. The calls stop after the first
  handler that does not return, and \<open>scanned\<close> are the bit positions the loop reaches
  (all those below the hint, when the hint is within the table). This holds for every
  emitter, code, data and hint.
\<close>

theorem emit_calls_in_order:
  "emit_calls (events_of s (emit code d hint s)) =
     map (\<lambda>h. (h, d, code))
       (upto_failure (length (handlers s))
          (dispatch_order code
             (scanned code (hint_or_default hint s) (length (handlers s))) (handlers s)))"
  by (rule emit_calls_emit) simp

text \<open>
  On \<open>three_slots\<close>, \<^verbatim>\<open>emit(0b111, 50)\<close> calls \<open>f1\<close> and \<open>f2\<close> for
  bit 0, \<open>f3\<close> for bit 1 (\<open>f2\<close> is there too and is passed over) and \<open>f4\<close>
  for bit 2, each with \<open>(50, 7)\<close>.
\<close>

theorem emit_calls_in_order_witness:
  "dispatch_order 7 (scanned 7 (hint_or_default None three_slots) (length (handlers three_slots)))
     (handlers three_slots) = [Fn (Returns 1), Fn (Returns 2), Fn (Returns 3), Fn (Returns 4)] \<and>
   emit_calls (events_of three_slots (emit 7 50 None three_slots)) =
     [(Fn (Returns 1), 50, 7), (Fn (Returns 2), 50, 7), (Fn (Returns 3), 50, 7),
      (Fn (Returns 4), 50, 7)]"
proof -
  have "dispatch_order 7 (scanned 7 (hint_or_default None three_slots) (length (handlers three_slots)))
     (handlers three_slots) = [Fn (Returns 1), Fn (Returns 2), Fn (Returns 3), Fn (Returns 4)]"
    by code_simp
  with emit_calls_in_order [of three_slots 7 50 None] show ?thesis
    by (simp add: three_slots_def)
qed

text \<open>
  C8. When the handlers in dispatch order are \<open>pre\<close>, which all return, then
  \<open>g\<close>, whose function throws, then \<open>post\<close>: \<^verbatim>\<open>emit\<close> throws what that
  function threw, the handlers of \<open>pre\<close> and \<open>g\<close> have been called, and no
  handler of \<open>post\<close> is called.
\<close>

theorem emit_stops_at_throw:
  assumes "dispatch_order code
             (scanned code (hint_or_default hint s) (length (handlers s))) (handlers s)
           = pre @ g # post"
    and "list_all (returns (length (handlers s))) pre"
    and "callback_of g = Throws m"
  shows "raised (emit code d hint s) = Some (Thrown m) \<and>
         emit_calls (events_of s (emit code d hint s)) = map (\<lambda>h. (h, d, code)) (pre @ [g]) \<and>
         set post \<inter> set (pre @ [g]) = {}"
proof -
  let ?L = "length (handlers s)"
  note g = callback_throws [OF assms(3), of ?L]
  have "find (\<lambda>h. \<not> returns ?L h) (pre @ g # post) = Some g"
    using assms(2) g by (induction pre) simp_all
  then have r: "raised (emit code d hint s) = Some (Thrown m)"
    using g by (simp add: emit_raised [OF refl] assms(1))
  have "upto_failure ?L (pre @ g # post) = pre @ [g]"
    using g by (simp add: upto_failure_append [OF assms(2)])
  then have c: "emit_calls (events_of s (emit code d hint s)) = map (\<lambda>h. (h, d, code)) (pre @ [g])"
    by (simp add: emit_calls_emit [OF refl] assms(1))
  have "distinct (pre @ g # post)"
    using distinct_visit [of "{}"] assms(1) unfolding dispatch_order_def by metis
  then have "set post \<inter> set (pre @ [g]) = {}" by auto
  with r c show ?thesis by simp
qed

text \<open>
  On \<open>throwing_slots\<close>, \<^verbatim>\<open>emit(0b11, 50)\<close> calls \<open>f1\<close>, then the function
  that throws, and throws; \<open>f3\<close> is not called.
\<close>

theorem emit_stops_at_throw_witness:
  "dispatch_order 3
     (scanned 3 (hint_or_default None throwing_slots) (length (handlers throwing_slots)))
     (handlers throwing_slots) = [Fn (Returns 1)] @ Fn (Throws 2) # [Fn (Returns 3)] \<and>
   list_all (returns (length (handlers throwing_slots))) [Fn (Returns 1)] \<and>
   callback_of (Fn (Throws 2)) = Throws 2 \<and>
   raised (emit 3 50 None throwing_slots) = Some (Thrown 2) \<and>
   emit_calls (events_of throwing_slots (emit 3 50 None throwing_slots)) =
     [(Fn (Returns 1), 50, 3), (Fn (Throws 2), 50, 3)]"
proof -
  have order: "dispatch_order 3
     (scanned 3 (hint_or_default None throwing_slots) (length (handlers throwing_slots)))
     (handlers throwing_slots) = [Fn (Returns 1)] @ Fn (Throws 2) # [Fn (Returns 3)]"
    by code_simp
  have pre: "list_all (returns (length (handlers throwing_slots))) [Fn (Returns 1)]"
    by simp
  have g: "callback_of (Fn (Throws 2)) = Throws 2"
    by simp
  from emit_stops_at_throw [OF order pre g, of 50] order pre g show ?thesis by simp
qed

text \<open>
  C9. Calling \<^verbatim>\<open>on(code, h, bitsHint)\<close> a second time, in the state the first call
  left, has the outcome of the first call and leaves that state unchanged. This holds for
  every emitter, code, handler and hint, also when the call throws.
\<close>

theorem on_twice_same_as_once:
  "on code h hint (state_of (on code h hint s)) = on code h hint s"
proof -
  have "hint_or_default hint (state_of (on code h hint s)) = hint_or_default hint s"
    by (simp add: on_def hint_or_default_def on_loop_frame split: option.splits)
  then show ?thesis
    by (simp add: on_def on_loop_idem)
qed

text \<open>
  On four slots, \<^verbatim>\<open>on(0b101, f)\<close> twice.
\<close>

theorem on_twice_same_as_once_witness:
  "on 5 (Fn (Returns 1)) None four_slots =
     Inr (four_slots\<lparr>handlers := [[Fn (Returns 1)], [], [Fn (Returns 1)], []]\<rparr>) \<and>
   on 5 (Fn (Returns 1)) None
      (four_slots\<lparr>handlers := [[Fn (Returns 1)], [], [Fn (Returns 1)], []]\<rparr>) =
     Inr (four_slots\<lparr>handlers := [[Fn (Returns 1)], [], [Fn (Returns 1)], []]\<rparr>)"
proof -
  have a: "on 5 (Fn (Returns 1)) None four_slots =
     Inr (four_slots\<lparr>handlers := [[Fn (Returns 1)], [], [Fn (Returns 1)], []]\<rparr>)"
    by code_simp
  with on_twice_same_as_once [of 5 "Fn (Returns 1)" None four_slots] show ?thesis by simp
qed



end
